theory Spec2Isabelle
  imports Main "HOL-Library.Word" "HOL-Library.AList" "HOL-Library.Signed_Division"
begin

section \<open>Common types\<close>

text \<open>
  A failed \<^verbatim>\<open>check(...)\<close>, a failed \<^verbatim>\<open>FindChecked\<close> and an array index outside
  the array are fatal in the source; the model returns them as error values.
\<close>

datatype error = CheckFailed | IndexOutOfRange

text \<open>Property handles are \<^verbatim>\<open>uint16\<close>; change lists are \<^verbatim>\<open>TArray<uint16>\<close>.\<close>

type_synonym handle = "16 word"

section \<open>The change-history ring of a replication state\<close>

text \<open>
  \<^verbatim>\<open>FRepChangedHistory\<close> and \<^verbatim>\<open>FRepState\<close> are engine types; only the members
  the channel code reads and writes are kept. \<^verbatim>\<open>ChangeHistory\<close> is a C array of
  \<^verbatim>\<open>MAX_CHANGE_HISTORY\<close> slots, modelled as a function from the slot index; the
  capacity is a parameter of every function that uses it.
  \<^verbatim>\<open>int32\<close> cursors are integers: the code keeps them below twice the capacity.
\<close>

record FRepChangedHistory =
  Changed :: "handle list"
  OutPacketIdRange :: "int \<times> int"

definition FPacketIdRange :: "int \<times> int" where
  "FPacketIdRange = (-1, -1)"

record FRepState =
  ChangeHistory :: "nat \<Rightarrow> FRepChangedHistory"
  HistoryStart :: int
  HistoryEnd :: int
  LastChangelistIndex :: int
  LastCompareIndex :: int

text \<open>
  The loop of \<^verbatim>\<open>UpdateChangelistHistory\<close>:
  \<^verbatim>\<open>for (int32 i = RepState->HistoryStart; i < RepState->HistoryEnd; i++)\<close>.
  Each round checks that the slot \<^verbatim>\<open>i % MAX_CHANGE_HISTORY\<close> holds a change list,
  empties it, resets its packet range and advances \<^verbatim>\<open>HistoryStart\<close>. C's
  \<^verbatim>\<open>%\<close> truncates towards zero (\<open>smod\<close>): for a negative \<open>i\<close> it is negative,
  an index outside the array.
\<close>

function UpdateChangelistHistory_loop :: "int \<Rightarrow> int \<Rightarrow> FRepState \<Rightarrow> error + FRepState" where
  "UpdateChangelistHistory_loop MAX_CHANGE_HISTORY i RepState =
     (if i < HistoryEnd RepState then
        (if i smod MAX_CHANGE_HISTORY < 0 then Inl IndexOutOfRange
         else if \<not> (length (Changed (ChangeHistory RepState (nat (i smod MAX_CHANGE_HISTORY)))) > 0)
           then Inl CheckFailed
         else UpdateChangelistHistory_loop MAX_CHANGE_HISTORY (i + 1)
           (RepState\<lparr>ChangeHistory := (ChangeHistory RepState)
               (nat (i smod MAX_CHANGE_HISTORY) := \<lparr>Changed = [], OutPacketIdRange = FPacketIdRange\<rparr>),
             HistoryStart := HistoryStart RepState + 1\<rparr>))
      else Inr RepState)"
  by pat_completeness auto
termination
  by (relation "measure (\<lambda>(MAX_CHANGE_HISTORY, i, RepState). nat (HistoryEnd RepState - i))") auto

declare UpdateChangelistHistory_loop.simps [simp del]

definition UpdateChangelistHistory :: "int \<Rightarrow> FRepState \<Rightarrow> error + FRepState" where
  "UpdateChangelistHistory MAX_CHANGE_HISTORY RepState =
     (if \<not> (HistoryEnd RepState \<ge> HistoryStart RepState) then Inl CheckFailed
      else if \<not> (HistoryEnd RepState - HistoryStart RepState < MAX_CHANGE_HISTORY) then Inl CheckFailed
      else case UpdateChangelistHistory_loop MAX_CHANGE_HISTORY (HistoryStart RepState) RepState of
        Inl e \<Rightarrow> Inl e
      | Inr RepState1 \<Rightarrow>
          (if \<not> (HistoryEnd RepState1 - HistoryStart RepState1 \<le> MAX_CHANGE_HISTORY) then Inl CheckFailed
           else Inr (RepState1\<lparr>
             HistoryStart := HistoryStart RepState1 smod MAX_CHANGE_HISTORY,
             HistoryEnd := HistoryStart RepState1 smod MAX_CHANGE_HISTORY
               + (HistoryEnd RepState1 - HistoryStart RepState1)\<rparr>)))"


section \<open>Replication layouts and the initial change state\<close>

text \<open>
  \<^verbatim>\<open>FRepLayoutCmd\<close> and \<^verbatim>\<open>FRepLayout\<close> are engine types. Of a command the channel
  reads its type, its relative handle and \<^verbatim>\<open>EndCmd\<close> (both \<^verbatim>\<open>uint16\<close>); every
  command type other than \<^verbatim>\<open>REPCMD_DynamicArray\<close> and \<^verbatim>\<open>REPCMD_Return\<close> is
  \<open>REPCMD_Property\<close> here. \<^verbatim>\<open>BaseHandleToCmdIndex\<close> is kept as the list of its
  \<^verbatim>\<open>CmdIndex\<close> members.
\<close>

datatype ERepLayoutCmdType = REPCMD_DynamicArray | REPCMD_Return | REPCMD_Property

record FRepLayoutCmd =
  Type :: ERepLayoutCmdType
  RelativeHandle :: handle
  EndCmd :: "16 word"

record FRepLayout =
  Cmds :: "FRepLayoutCmd list"
  BaseHandleToCmdIndex :: "nat list"

text \<open>
  \<^verbatim>\<open>USpatialActorChannel::IsDynamicArrayHandle\<close>. The first argument is the layout of
  the object's replicator, \<open>None\<close> when the object has no replicator
  (\<^verbatim>\<open>check(ObjectHasReplicator(Object))\<close>). \<^verbatim>\<open>Handle - 1\<close> is computed in
  \<^verbatim>\<open>int\<close>; the two array reads are range-checked by \<^verbatim>\<open>TArray\<close>.
\<close>

definition IsDynamicArrayHandle :: "FRepLayout option \<Rightarrow> handle \<Rightarrow> error + bool" where
  "IsDynamicArrayHandle Replicator Handle =
     (case Replicator of
        None \<Rightarrow> Inl CheckFailed
      | Some RepLayout \<Rightarrow>
          if \<not> (uint Handle - 1 < int (length (BaseHandleToCmdIndex RepLayout))) then Inl CheckFailed
          else if uint Handle - 1 < 0 then Inl IndexOutOfRange
          else if \<not> (BaseHandleToCmdIndex RepLayout ! nat (uint Handle - 1) < length (Cmds RepLayout))
            then Inl IndexOutOfRange
          else Inr (Type (Cmds RepLayout ! (BaseHandleToCmdIndex RepLayout ! nat (uint Handle - 1)))
                      = REPCMD_DynamicArray))"

text \<open>
  The loop of \<^verbatim>\<open>CreateInitialRepChangeState\<close>:
  \<^verbatim>\<open>for (uint16 CmdIdx = 0; CmdIdx < CmdCount; ++CmdIdx)\<close>. The counter is 16 bits wide
  and wraps, so the loop does not end on a layout of more than 65535 commands: the
  function is partial, and \<open>None\<close> is not returning. The count marker
  \<^verbatim>\<open>(Cmd.EndCmd - CmdIdx) - 2\<close> is computed in \<^verbatim>\<open>int\<close> and stored as \<^verbatim>\<open>uint16\<close>.
\<close>

partial_function (option) CreateInitialRepChangeState_loop ::
  "FRepLayoutCmd list \<Rightarrow> 16 word \<Rightarrow> int \<Rightarrow> handle list \<Rightarrow> (error + handle list) option" where
  "CreateInitialRepChangeState_loop Cmds' CmdIdx DynamicArrayDepth InitialRepChanged =
     (if uint CmdIdx < int (length Cmds') then
        (case Type (Cmds' ! unat CmdIdx) of
           REPCMD_DynamicArray \<Rightarrow>
             CreateInitialRepChangeState_loop Cmds' (CmdIdx + 1) (DynamicArrayDepth + 1)
               (InitialRepChanged @ [RelativeHandle (Cmds' ! unat CmdIdx)] @
                 (if DynamicArrayDepth + 1 = 1
                  then [word_of_int (uint (EndCmd (Cmds' ! unat CmdIdx)) - uint CmdIdx - 2)]
                  else []))
         | REPCMD_Return \<Rightarrow>
             if \<not> (DynamicArrayDepth - 1 \<ge> 0 \<or> uint CmdIdx = int (length Cmds') - 1)
             then Some (Inl CheckFailed)
             else CreateInitialRepChangeState_loop Cmds' (CmdIdx + 1) (DynamicArrayDepth - 1)
               (InitialRepChanged @ [RelativeHandle (Cmds' ! unat CmdIdx)])
         | REPCMD_Property \<Rightarrow>
             CreateInitialRepChangeState_loop Cmds' (CmdIdx + 1) DynamicArrayDepth
               (InitialRepChanged @ [RelativeHandle (Cmds' ! unat CmdIdx)]))
      else Some (Inr InitialRepChanged))"

definition CreateInitialRepChangeState :: "FRepLayout \<Rightarrow> (error + handle list) option" where
  "CreateInitialRepChangeState RepLayout = CreateInitialRepChangeState_loop (Cmds RepLayout) 0 0 []"

section \<open>Handover properties and their shadow data\<close>

text \<open>
  \<^verbatim>\<open>UProperty\<close> is an engine class and \<^verbatim>\<open>FHandoverPropertyInfo\<close> is declared by the
  typebinding manager; the members the channel reads are kept. Memory is a list of bytes.
  \<^verbatim>\<open>Identical\<close> and \<^verbatim>\<open>CopySingleValue\<close> are the engine's, modelled for plain data:
  they compare and copy the \<^verbatim>\<open>ElementSize\<close> bytes of one element. \<^verbatim>\<open>Align\<close> is the
  engine's round-up to a multiple of the alignment; sizes stay far below \<open>2 ^ 32\<close>.
  A read or write outside a buffer is an error value.
\<close>

record UProperty =
  MinAlignment :: nat
  ElementSize :: nat
  ArrayDim :: nat


record FHandoverPropertyInfo =
  Handle :: handle
  Offset :: nat
  ArrayIdx :: nat
  Property :: UProperty

type_synonym FHandoverChangeState = "handle list"

text \<open>
  \<^verbatim>\<open>FClassInfo\<close>, \<^verbatim>\<open>FRPCInfo\<close> and \<^verbatim>\<open>ERPCType\<close> are declared by the typebinding
  manager; the members read here are kept (the type and index of an RPC are
  \<open>RPCType\<close> and \<open>RPCIndex\<close>).
\<close>

datatype ERPCType = RPC_Client | RPC_Server | RPC_CrossServer | RPC_NetMulticast | RPC_Count

record FRPCInfo =
  RPCType :: ERPCType
  RPCIndex :: nat

record FClassInfo =
  HandoverProperties :: "FHandoverPropertyInfo list"
  SubobjectClasses :: "nat list"
  RPCInfoMap :: "(nat \<times> FRPCInfo) list"
  RPCComponents :: "ERPCType \<Rightarrow> nat"

definition Align :: "nat \<Rightarrow> nat \<Rightarrow> nat" where
  "Align Val Alignment = (Val + Alignment - 1) div Alignment * Alignment"

definition ReadBytes :: "8 word list \<Rightarrow> nat \<Rightarrow> nat \<Rightarrow> error + 8 word list" where
  "ReadBytes Memory At Size =
     (if At + Size \<le> length Memory then Inr (take Size (drop At Memory)) else Inl IndexOutOfRange)"

definition WriteBytes :: "8 word list \<Rightarrow> nat \<Rightarrow> 8 word list \<Rightarrow> 8 word list" where
  "WriteBytes Memory At Bytes = take At Memory @ Bytes @ drop (At + length Bytes) Memory"



text \<open>
  The loop of \<^verbatim>\<open>GetHandoverChangeList\<close> over the class's handover properties:
  the offset into the shadow data, the shadow data and the change list are carried along.
\<close>

fun GetHandoverChangeList_loop ::
  "bool \<Rightarrow> 8 word list \<Rightarrow> FHandoverPropertyInfo list \<Rightarrow> nat \<Rightarrow> 8 word list \<Rightarrow> FHandoverChangeState
   \<Rightarrow> error + (FHandoverChangeState \<times> 8 word list)" where
  "GetHandoverChangeList_loop bCreatingNewEntity' Object [] ShadowDataOffset ShadowData HandoverChanged =
     Inr (HandoverChanged, ShadowData)"
| "GetHandoverChangeList_loop bCreatingNewEntity' Object (PropertyInfo # Rest) ShadowDataOffset ShadowData
     HandoverChanged =
     (case ReadBytes Object (Offset PropertyInfo) (ElementSize (Property PropertyInfo)) of
        Inl e \<Rightarrow> Inl e
      | Inr Data \<Rightarrow>
         (case ReadBytes ShadowData (Align ShadowDataOffset (MinAlignment (Property PropertyInfo)))
                 (ElementSize (Property PropertyInfo)) of
            Inl e \<Rightarrow> Inl e
          | Inr StoredData \<Rightarrow>
              if bCreatingNewEntity' \<or> \<not> (StoredData = Data)
              then GetHandoverChangeList_loop bCreatingNewEntity' Object Rest
                     (Align ShadowDataOffset (MinAlignment (Property PropertyInfo))
                        + ElementSize (Property PropertyInfo))
                     (WriteBytes ShadowData
                        (Align ShadowDataOffset (MinAlignment (Property PropertyInfo))) Data)
                     (HandoverChanged @ [Handle PropertyInfo])
              else GetHandoverChangeList_loop bCreatingNewEntity' Object Rest
                     (Align ShadowDataOffset (MinAlignment (Property PropertyInfo))
                        + ElementSize (Property PropertyInfo))
                     ShadowData HandoverChanged))"

text \<open>
  \<^verbatim>\<open>GetHandoverChangeList\<close>. \<open>ClassInfo\<close> is what \<^verbatim>\<open>FindClassInfoByClass\<close> found for
  the object's class, \<open>None\<close> for a null pointer; \<open>Object\<close> is the object's memory.
\<close>

definition GetHandoverChangeList ::
  "bool \<Rightarrow> FClassInfo option \<Rightarrow> 8 word list \<Rightarrow> 8 word list
   \<Rightarrow> error + (FHandoverChangeState \<times> 8 word list)" where
  "GetHandoverChangeList bCreatingNewEntity' ClassInfo ShadowData Object =
     (case ClassInfo of
        None \<Rightarrow> Inl CheckFailed
      | Some Info \<Rightarrow>
          GetHandoverChangeList_loop bCreatingNewEntity' Object (HandoverProperties Info) 0 ShadowData [])"

definition CreateInitialHandoverChangeState :: "FClassInfo \<Rightarrow> FHandoverChangeState" where
  "CreateInitialHandoverChangeState ClassInfo = map Handle (HandoverProperties ClassInfo)"

section \<open>The sender: pending updates waiting for unresolved objects\<close>

text \<open>
  Objects, channels, classes, functions and parameter blocks are named by numbers. A
  \<^verbatim>\<open>TMap\<close> is an association list in insertion order: \<open>map_of\<close> is \<^verbatim>\<open>Find\<close>,
  \<open>AList.update\<close> is \<^verbatim>\<open>Add\<close> (and writes back a value changed through a
  reference), \<open>AList.delete\<close> is \<^verbatim>\<open>Remove\<close>, and \<^verbatim>\<open>FindOrAdd\<close> reads the empty
  map where the key is absent. A \<^verbatim>\<open>TSet\<close> is a list without repetitions.

  \<^verbatim>\<open>FUnresolvedEntry\<close> is a \<^verbatim>\<open>TSharedPtr<TSet<const UObject*>>\<close>: one set, reached
  from the map keyed by property and from the map of every object it names. The model
  keeps the sets in a store (\<open>UnresolvedSets\<close>) and the pointers as addresses in it, so
  that a removal through one pointer is seen through all of them.
\<close>

type_synonym FChannelObjectPair = "nat \<times> nat"
type_synonym FUnresolvedEntry = nat
type_synonym FHandleToUnresolved = "(handle \<times> FUnresolvedEntry) list"
type_synonym FChannelToHandleToUnresolved = "(FChannelObjectPair \<times> FHandleToUnresolved) list"
type_synonym FOutgoingRepUpdates = "(nat \<times> FChannelToHandleToUnresolved) list"
type_synonym FUnresolvedObjectsMap = "(handle \<times> nat list) list"

record FPendingRPCParams =
  TargetObject :: nat
  Function :: nat
  Parameters :: nat

record USpatialSender =
  RepPropertyToUnresolved :: FChannelToHandleToUnresolved
  RepObjectToUnresolved :: FOutgoingRepUpdates
  HandoverPropertyToUnresolved :: FChannelToHandleToUnresolved
  HandoverObjectToUnresolved :: FOutgoingRepUpdates
  OutgoingRPCs :: "(nat \<times> FPendingRPCParams list) list"
  PendingActorRequests :: "(int \<times> nat) list"
  UnresolvedSets :: "FUnresolvedEntry \<Rightarrow> nat list option"
  NextUnresolvedEntry :: FUnresolvedEntry
  NextRequestId :: int

text \<open>
  \<^verbatim>\<open>bIsHandover ? HandoverPropertyToUnresolved : RepPropertyToUnresolved\<close> and
  \<^verbatim>\<open>bIsHandover ? HandoverObjectToUnresolved : RepObjectToUnresolved\<close>: the
  container read, and the container written back.
\<close>

definition PropertyToUnresolved :: "bool \<Rightarrow> USpatialSender \<Rightarrow> FChannelToHandleToUnresolved" where
  "PropertyToUnresolved bIsHandover S =
     (if bIsHandover then HandoverPropertyToUnresolved S else RepPropertyToUnresolved S)"

definition ObjectToUnresolved :: "bool \<Rightarrow> USpatialSender \<Rightarrow> FOutgoingRepUpdates" where
  "ObjectToUnresolved bIsHandover S =
     (if bIsHandover then HandoverObjectToUnresolved S else RepObjectToUnresolved S)"

definition set_PropertyToUnresolved ::
  "bool \<Rightarrow> FChannelToHandleToUnresolved \<Rightarrow> USpatialSender \<Rightarrow> USpatialSender" where
  "set_PropertyToUnresolved bIsHandover P S =
     (if bIsHandover then S\<lparr>HandoverPropertyToUnresolved := P\<rparr> else S\<lparr>RepPropertyToUnresolved := P\<rparr>)"

definition set_ObjectToUnresolved ::
  "bool \<Rightarrow> FOutgoingRepUpdates \<Rightarrow> USpatialSender \<Rightarrow> USpatialSender" where
  "set_ObjectToUnresolved bIsHandover Ob S =
     (if bIsHandover then S\<lparr>HandoverObjectToUnresolved := Ob\<rparr> else S\<lparr>RepObjectToUnresolved := Ob\<rparr>)"

text \<open>
  \<^verbatim>\<open>Map.Remove(Handle); if (Map.Num() == 0) Outer.Remove(Key);\<close> on a map reached by
  reference inside \<open>Outer\<close>: the pattern closes \<^verbatim>\<open>ResetOutgoingUpdate\<close> and the
  inner block of \<^verbatim>\<open>ResolveOutgoingOperations\<close>.
\<close>

definition RemoveHandle ::
  "FChannelObjectPair \<Rightarrow> handle \<Rightarrow> FHandleToUnresolved \<Rightarrow> FChannelToHandleToUnresolved
   \<Rightarrow> FChannelToHandleToUnresolved" where
  "RemoveHandle ChannelObjectPair Handle' HandleToUnresolved Outer =
     (if length (AList.delete Handle' HandleToUnresolved) = 0
      then AList.delete ChannelObjectPair Outer
      else AList.update ChannelObjectPair (AList.delete Handle' HandleToUnresolved) Outer)"

text \<open>
  The loop of \<^verbatim>\<open>ResetOutgoingUpdate\<close> over the objects of the entry's set; both
  lookups are \<^verbatim>\<open>FindChecked\<close>.
\<close>

fun ResetOutgoingUpdate_loop ::
  "FChannelObjectPair \<Rightarrow> handle \<Rightarrow> nat list \<Rightarrow> FOutgoingRepUpdates \<Rightarrow> error + FOutgoingRepUpdates" where
  "ResetOutgoingUpdate_loop ChannelObjectPair Handle' [] ObjectToUnresolved' = Inr ObjectToUnresolved'"
| "ResetOutgoingUpdate_loop ChannelObjectPair Handle' (UnresolvedObject # Rest) ObjectToUnresolved' =
     (case map_of ObjectToUnresolved' UnresolvedObject of
        None \<Rightarrow> Inl CheckFailed
      | Some ChannelToUnresolved \<Rightarrow>
         (case map_of ChannelToUnresolved ChannelObjectPair of
            None \<Rightarrow> Inl CheckFailed
          | Some OtherHandleToUnresolved \<Rightarrow>
              ResetOutgoingUpdate_loop ChannelObjectPair Handle' Rest
                (if length (RemoveHandle ChannelObjectPair Handle' OtherHandleToUnresolved
                              ChannelToUnresolved) = 0
                 then AList.delete UnresolvedObject ObjectToUnresolved'
                 else AList.update UnresolvedObject
                        (RemoveHandle ChannelObjectPair Handle' OtherHandleToUnresolved ChannelToUnresolved)
                        ObjectToUnresolved')))"

definition ResetOutgoingUpdate ::
  "USpatialSender \<Rightarrow> FChannelObjectPair \<Rightarrow> handle \<Rightarrow> bool \<Rightarrow> error + USpatialSender" where
  "ResetOutgoingUpdate S ChannelObjectPair Handle' bIsHandover =
     (case map_of (PropertyToUnresolved bIsHandover S) ChannelObjectPair of
        None \<Rightarrow> Inr S
      | Some HandleToUnresolved \<Rightarrow>
         (case map_of HandleToUnresolved Handle' of
            None \<Rightarrow> Inr S
          | Some UnresolvedPtr \<Rightarrow>
             (case UnresolvedSets S UnresolvedPtr of
                None \<Rightarrow> Inl CheckFailed
              | Some Unresolved \<Rightarrow>
                 (case ResetOutgoingUpdate_loop ChannelObjectPair Handle' Unresolved
                         (ObjectToUnresolved bIsHandover S) of
                    Inl e \<Rightarrow> Inl e
                  | Inr ObjectToUnresolved' \<Rightarrow>
                      Inr (set_PropertyToUnresolved bIsHandover
                             (RemoveHandle ChannelObjectPair Handle' HandleToUnresolved
                                (PropertyToUnresolved bIsHandover S))
                             (set_ObjectToUnresolved bIsHandover ObjectToUnresolved' S))))))"

text \<open>
  The loop of \<^verbatim>\<open>QueueOutgoingUpdate\<close> over the unresolved objects:
  \<^verbatim>\<open>ObjectToUnresolved.FindOrAdd(UnresolvedObject).FindOrAdd(ChannelObjectPair)\<close>, the
  check that the handle is not there yet, and the \<^verbatim>\<open>Add\<close> of the shared entry.
\<close>

fun QueueOutgoingUpdate_loop ::
  "FChannelObjectPair \<Rightarrow> handle \<Rightarrow> FUnresolvedEntry \<Rightarrow> nat list \<Rightarrow> FOutgoingRepUpdates
   \<Rightarrow> error + FOutgoingRepUpdates" where
  "QueueOutgoingUpdate_loop ChannelObjectPair Handle' Unresolved [] ObjectToUnresolved' =
     Inr ObjectToUnresolved'"
| "QueueOutgoingUpdate_loop ChannelObjectPair Handle' Unresolved (UnresolvedObject # Rest)
     ObjectToUnresolved' =
     (if \<not> (map_of (case map_of (case map_of ObjectToUnresolved' UnresolvedObject of
                                     None \<Rightarrow> [] | Some ChannelToUnresolved \<Rightarrow> ChannelToUnresolved)
                             ChannelObjectPair of
                        None \<Rightarrow> [] | Some AnotherHandleToUnresolved \<Rightarrow> AnotherHandleToUnresolved)
                Handle' = None)
      then Inl CheckFailed
      else QueueOutgoingUpdate_loop ChannelObjectPair Handle' Unresolved Rest
             (AList.update UnresolvedObject
                (AList.update ChannelObjectPair
                   (AList.update Handle' Unresolved
                      (case map_of (case map_of ObjectToUnresolved' UnresolvedObject of
                                      None \<Rightarrow> [] | Some ChannelToUnresolved \<Rightarrow> ChannelToUnresolved)
                              ChannelObjectPair of
                         None \<Rightarrow> [] | Some AnotherHandleToUnresolved \<Rightarrow> AnotherHandleToUnresolved))
                   (case map_of ObjectToUnresolved' UnresolvedObject of
                      None \<Rightarrow> [] | Some ChannelToUnresolved \<Rightarrow> ChannelToUnresolved))
                ObjectToUnresolved'))"

text \<open>
  \<^verbatim>\<open>QueueOutgoingUpdate\<close>. \<^verbatim>\<open>MakeShared\<close> takes the next free address of the store
  and the new set is a copy of \<open>UnresolvedObjects\<close>.
\<close>

definition QueueOutgoingUpdate ::
  "USpatialSender \<Rightarrow> FChannelObjectPair \<Rightarrow> handle \<Rightarrow> nat list \<Rightarrow> bool \<Rightarrow> error + USpatialSender" where
  "QueueOutgoingUpdate S ChannelObjectPair Handle' UnresolvedObjects bIsHandover =
     (if \<not> (map_of (case map_of (PropertyToUnresolved bIsHandover S) ChannelObjectPair of
                        None \<Rightarrow> [] | Some HandleToUnresolved \<Rightarrow> HandleToUnresolved)
                Handle' = None)
      then Inl CheckFailed
      else case QueueOutgoingUpdate_loop ChannelObjectPair Handle' (NextUnresolvedEntry S)
                  UnresolvedObjects (ObjectToUnresolved bIsHandover S) of
        Inl e \<Rightarrow> Inl e
      | Inr ObjectToUnresolved' \<Rightarrow>
          Inr (set_PropertyToUnresolved bIsHandover
                 (AList.update ChannelObjectPair
                    (AList.update Handle' (NextUnresolvedEntry S)
                       (case map_of (PropertyToUnresolved bIsHandover S) ChannelObjectPair of
                          None \<Rightarrow> [] | Some HandleToUnresolved \<Rightarrow> HandleToUnresolved))
                    (PropertyToUnresolved bIsHandover S))
                 (set_ObjectToUnresolved bIsHandover ObjectToUnresolved'
                    (S\<lparr>UnresolvedSets := (UnresolvedSets S)(NextUnresolvedEntry S \<mapsto> UnresolvedObjects),
                       NextUnresolvedEntry := NextUnresolvedEntry S + 1\<rparr>))))"

text \<open>
  What the sender reads from its collaborators during one call: the liveness of the weak
  pointers of a \<^verbatim>\<open>FChannelObjectPair\<close>, a channel's entity id, actor and replicators,
  the typebinding manager, the package map (\<open>ObjectEntity\<close> is \<open>None\<close> for
  \<^verbatim>\<open>UNRESOLVED_OBJECT_REF\<close>), and the unresolved objects that \<^verbatim>\<open>ComponentFactory\<close>
  and the RPC payload writer report. The component factory, the schema and the worker
  connection are outside the repository's files here: a call that goes out is recorded
  with the arguments it was built from. \<open>ComponentUpdates Channel EntityId Object
  RepChanges HandoverChanges\<close> stands for the updates that \<^verbatim>\<open>SendComponentUpdates\<close>
  has the factory build from its arguments and sends to the entity of the channel.
\<close>

record SenderWorld =
  ChannelValid :: "nat \<Rightarrow> bool"
  ObjectValid :: "nat \<Rightarrow> bool"
  ChannelEntityId :: "nat \<Rightarrow> int"
  ChannelActor :: "nat \<Rightarrow> nat"
  ObjectHasReplicator :: "nat \<Rightarrow> nat \<Rightarrow> bool"
  ObjectRepLayout :: "nat \<Rightarrow> FRepLayout"
  ClassOf :: "nat \<Rightarrow> nat"
  ClassPath :: "nat \<Rightarrow> string"
  FindClassInfoByClass :: "nat \<Rightarrow> FClassInfo option"
  DefaultSubobjects :: "nat \<Rightarrow> nat list"
  UpdateFactoryUnresolved ::
    "nat \<Rightarrow> handle list option \<Rightarrow> handle list option \<Rightarrow> FUnresolvedObjectsMap \<times> FUnresolvedObjectsMap"
  DataFactoryUnresolved ::
    "nat \<Rightarrow> handle list \<Rightarrow> handle list \<Rightarrow> FUnresolvedObjectsMap \<times> FUnresolvedObjectsMap"
  ObjectEntity :: "nat \<Rightarrow> int option"
  PayloadUnresolved :: "nat \<Rightarrow> nat \<Rightarrow> nat list"

datatype outgoing =
    ComponentUpdates nat int nat "handle list option" "handle list option"
  | CommandRequest int nat nat nat nat
  | MulticastUpdate int nat nat nat nat
  | CreateEntityRequest int int string string "int option" "(nat \<times> handle list \<times> handle list) list"
  | ReserveEntityIdRequest int
  | AddPendingActorRequest int nat
  | DestroyParameters nat nat

text \<open>
  The two loops of \<^verbatim>\<open>SendComponentUpdates\<close>: \<^verbatim>\<open>ResetOutgoingUpdate\<close>, then
  \<^verbatim>\<open>QueueOutgoingUpdate\<close> when the factory reported unresolved objects for the handle.
  The loop over \<^verbatim>\<open>RepChanges\<close> skips the handles that are not \<^verbatim>\<open>> 0\<close>; the loop over
  \<^verbatim>\<open>HandoverChanges\<close> takes every handle. They are one function, told apart by
  \<open>bIsHandover\<close>.
\<close>

fun SendComponentUpdates_loop ::
  "bool \<Rightarrow> FChannelObjectPair \<Rightarrow> FUnresolvedObjectsMap \<Rightarrow> handle list \<Rightarrow> USpatialSender
   \<Rightarrow> error + USpatialSender" where
  "SendComponentUpdates_loop bIsHandover ChannelObjectPair UnresolvedObjectsMap [] S = Inr S"
| "SendComponentUpdates_loop bIsHandover ChannelObjectPair UnresolvedObjectsMap (Handle' # Rest) S =
     (if bIsHandover \<or> Handle' > 0 then
        (case ResetOutgoingUpdate S ChannelObjectPair Handle' bIsHandover of
           Inl e \<Rightarrow> Inl e
         | Inr S1 \<Rightarrow>
            (case map_of UnresolvedObjectsMap Handle' of
               None \<Rightarrow> SendComponentUpdates_loop bIsHandover ChannelObjectPair UnresolvedObjectsMap Rest S1
             | Some UnresolvedObjects \<Rightarrow>
                (case QueueOutgoingUpdate S1 ChannelObjectPair Handle' UnresolvedObjects bIsHandover of
                   Inl e \<Rightarrow> Inl e
                 | Inr S2 \<Rightarrow>
                     SendComponentUpdates_loop bIsHandover ChannelObjectPair UnresolvedObjectsMap Rest S2)))
      else SendComponentUpdates_loop bIsHandover ChannelObjectPair UnresolvedObjectsMap Rest S)"

definition SendComponentUpdates ::
  "SenderWorld \<Rightarrow> USpatialSender \<Rightarrow> nat \<Rightarrow> nat \<Rightarrow> handle list option \<Rightarrow> handle list option
   \<Rightarrow> error + (USpatialSender \<times> outgoing list)" where
  "SendComponentUpdates W S Object Channel RepChanges HandoverChanges =
     (case (case RepChanges of
              None \<Rightarrow> Inr S
            | Some RepChanged \<Rightarrow>
                SendComponentUpdates_loop False (Channel, Object)
                  (fst (UpdateFactoryUnresolved W Object RepChanges HandoverChanges)) RepChanged S) of
        Inl e \<Rightarrow> Inl e
      | Inr S1 \<Rightarrow>
         (case (case HandoverChanges of
                  None \<Rightarrow> Inr S1
                | Some HandoverChanged \<Rightarrow>
                    SendComponentUpdates_loop True (Channel, Object)
                      (snd (UpdateFactoryUnresolved W Object RepChanges HandoverChanges))
                      HandoverChanged S1) of
            Inl e \<Rightarrow> Inl e
          | Inr S2 \<Rightarrow>
              Inr (S2, [ComponentUpdates Channel (ChannelEntityId W Channel) Object
                          RepChanges HandoverChanges])))"

text \<open>
  The inner loop of \<^verbatim>\<open>ResolveOutgoingOperations\<close> over the handles registered under the
  resolved object for one channel and object: the object leaves the shared set; an
  entry whose set is now empty gives its handle (and two zero handles after it when the
  property is a dynamic array and this is not handover), and is removed from
  \<^verbatim>\<open>PropertyToUnresolved\<close>.
\<close>

fun ResolveOutgoingOperations_handles ::
  "SenderWorld \<Rightarrow> bool \<Rightarrow> nat \<Rightarrow> FChannelObjectPair \<Rightarrow> FHandleToUnresolved \<Rightarrow> USpatialSender
   \<Rightarrow> handle list \<Rightarrow> error + (USpatialSender \<times> handle list)" where
  "ResolveOutgoingOperations_handles W bIsHandover Object ChannelObjectPair [] S PropertyHandles =
     Inr (S, PropertyHandles)"
| "ResolveOutgoingOperations_handles W bIsHandover Object ChannelObjectPair
     ((Handle', Unresolved) # Rest) S PropertyHandles =
     (case UnresolvedSets S Unresolved of
        None \<Rightarrow> Inl CheckFailed
      | Some UnresolvedSet \<Rightarrow>
          if length (removeAll Object UnresolvedSet) = 0 then
            (case (if \<not> bIsHandover
                   then IsDynamicArrayHandle
                          (if ObjectHasReplicator W (fst ChannelObjectPair) (snd ChannelObjectPair)
                           then Some (ObjectRepLayout W (snd ChannelObjectPair)) else None) Handle'
                   else Inr False) of
               Inl e \<Rightarrow> Inl e
             | Inr bIsArray \<Rightarrow>
                (case map_of (PropertyToUnresolved bIsHandover S) ChannelObjectPair of
                   None \<Rightarrow> Inl CheckFailed
                 | Some AnotherHandleToUnresolved \<Rightarrow>
                     ResolveOutgoingOperations_handles W bIsHandover Object ChannelObjectPair Rest
                       (set_PropertyToUnresolved bIsHandover
                          (RemoveHandle ChannelObjectPair Handle' AnotherHandleToUnresolved
                             (PropertyToUnresolved bIsHandover S))
                          (S\<lparr>UnresolvedSets := (UnresolvedSets S)
                               (Unresolved \<mapsto> removeAll Object UnresolvedSet)\<rparr>))
                       (PropertyHandles @ [Handle'] @ (if bIsArray then [0, 0] else []))))
          else ResolveOutgoingOperations_handles W bIsHandover Object ChannelObjectPair Rest
                 (S\<lparr>UnresolvedSets := (UnresolvedSets S)
                      (Unresolved \<mapsto> removeAll Object UnresolvedSet)\<rparr>)
                 PropertyHandles)"

text \<open>
  The outer loop over the channels and objects registered under the resolved object. A
  pair with a stale weak pointer is passed over. The handles of one pair go out in one
  \<^verbatim>\<open>SendComponentUpdates\<close>: as \<^verbatim>\<open>HandoverChanges\<close>, or as \<^verbatim>\<open>RepChanges\<close> closed by
  a zero handle.
\<close>

fun ResolveOutgoingOperations_loop ::
  "SenderWorld \<Rightarrow> bool \<Rightarrow> nat \<Rightarrow> FChannelToHandleToUnresolved \<Rightarrow> USpatialSender \<Rightarrow> outgoing list
   \<Rightarrow> error + (USpatialSender \<times> outgoing list)" where
  "ResolveOutgoingOperations_loop W bIsHandover Object [] S Sent = Inr (S, Sent)"
| "ResolveOutgoingOperations_loop W bIsHandover Object ((ChannelObjectPair, HandleToUnresolved) # Rest)
     S Sent =
     (if \<not> ChannelValid W (fst ChannelObjectPair) \<or> \<not> ObjectValid W (snd ChannelObjectPair)
      then ResolveOutgoingOperations_loop W bIsHandover Object Rest S Sent
      else case ResolveOutgoingOperations_handles W bIsHandover Object ChannelObjectPair
                  HandleToUnresolved S [] of
        Inl e \<Rightarrow> Inl e
      | Inr (S1, PropertyHandles) \<Rightarrow>
          if length PropertyHandles > 0 then
            (case (if bIsHandover
                   then SendComponentUpdates W S1 (snd ChannelObjectPair) (fst ChannelObjectPair)
                          None (Some PropertyHandles)
                   else SendComponentUpdates W S1 (snd ChannelObjectPair) (fst ChannelObjectPair)
                          (Some (PropertyHandles @ [0])) None) of
               Inl e \<Rightarrow> Inl e
             | Inr (S2, Sent1) \<Rightarrow>
                 ResolveOutgoingOperations_loop W bIsHandover Object Rest S2 (Sent @ Sent1))
          else ResolveOutgoingOperations_loop W bIsHandover Object Rest S1 Sent)"

text \<open>
  \<^verbatim>\<open>ResolveOutgoingOperations\<close>. The loops run over the entry of \<open>Object\<close> as it is
  found at the start; the entry is removed at the end.
\<close>

definition ResolveOutgoingOperations ::
  "SenderWorld \<Rightarrow> USpatialSender \<Rightarrow> nat \<Rightarrow> bool \<Rightarrow> error + (USpatialSender \<times> outgoing list)" where
  "ResolveOutgoingOperations W S Object bIsHandover =
     (case map_of (ObjectToUnresolved bIsHandover S) Object of
        None \<Rightarrow> Inr (S, [])
      | Some ChannelToUnresolved \<Rightarrow>
         (case ResolveOutgoingOperations_loop W bIsHandover Object ChannelToUnresolved S [] of
            Inl e \<Rightarrow> Inl e
          | Inr (S1, Sent) \<Rightarrow>
              Inr (set_ObjectToUnresolved bIsHandover
                     (AList.delete Object (ObjectToUnresolved bIsHandover S1)) S1, Sent)))"

text \<open>
  \<^verbatim>\<open>for (auto& HandleUnresolvedObjectsPair : UnresolvedObjectsMap) QueueOutgoingUpdate(...)\<close>,
  the loop \<^verbatim>\<open>CreateEntity\<close> runs after each use of the data factory.
\<close>

fun CreateEntity_Queue ::
  "bool \<Rightarrow> FChannelObjectPair \<Rightarrow> FUnresolvedObjectsMap \<Rightarrow> USpatialSender \<Rightarrow> error + USpatialSender" where
  "CreateEntity_Queue bIsHandover ChannelObjectPair [] S = Inr S"
| "CreateEntity_Queue bIsHandover ChannelObjectPair ((Handle', UnresolvedObjects) # Rest) S =
     (case QueueOutgoingUpdate S ChannelObjectPair Handle' UnresolvedObjects bIsHandover of
        Inl e \<Rightarrow> Inl e
      | Inr S1 \<Rightarrow> CreateEntity_Queue bIsHandover ChannelObjectPair Rest S1)"

text \<open>
  The part of \<^verbatim>\<open>CreateEntity\<close> for one object (the actor, then each subobject): its
  initial change states, the data factory, and the two queueing loops. The result
  carries what the component data of the object was built from.
\<close>

definition CreateEntity_Object ::
  "SenderWorld \<Rightarrow> USpatialSender \<Rightarrow> nat \<Rightarrow> nat \<Rightarrow> FClassInfo
   \<Rightarrow> (error + (USpatialSender \<times> (nat \<times> handle list \<times> handle list))) option" where
  "CreateEntity_Object W S Channel Object Info =
     (case CreateInitialRepChangeState (ObjectRepLayout W Object) of
        None \<Rightarrow> None
      | Some (Inl e) \<Rightarrow> Some (Inl e)
      | Some (Inr InitialRepChanges) \<Rightarrow>
         (case CreateEntity_Queue False (Channel, Object)
                 (fst (DataFactoryUnresolved W Object InitialRepChanges
                         (CreateInitialHandoverChangeState Info))) S of
            Inl e \<Rightarrow> Some (Inl e)
          | Inr S1 \<Rightarrow>
             (case CreateEntity_Queue True (Channel, Object)
                     (snd (DataFactoryUnresolved W Object InitialRepChanges
                             (CreateInitialHandoverChangeState Info))) S1 of
                Inl e \<Rightarrow> Some (Inl e)
              | Inr S2 \<Rightarrow>
                  Some (Inr (S2, (Object, InitialRepChanges, CreateInitialHandoverChangeState Info))))))"

text \<open>
  The second loop of \<^verbatim>\<open>CreateEntity\<close> over \<^verbatim>\<open>Info->SubobjectClasses\<close>: the class info
  and the default subobject of the class are checked, then the subobject is handled as
  the actor was.
\<close>

fun CreateEntity_Subobjects ::
  "SenderWorld \<Rightarrow> nat \<Rightarrow> nat \<Rightarrow> nat list \<Rightarrow> USpatialSender \<Rightarrow> (nat \<times> handle list \<times> handle list) list
   \<Rightarrow> (error + (USpatialSender \<times> (nat \<times> handle list \<times> handle list) list)) option" where
  "CreateEntity_Subobjects W Channel Actor [] S Datas = Some (Inr (S, Datas))"
| "CreateEntity_Subobjects W Channel Actor (SubobjectClass # Rest) S Datas =
     (case FindClassInfoByClass W SubobjectClass of
        None \<Rightarrow> Some (Inl CheckFailed)
      | Some SubobjectInfo \<Rightarrow>
         (case find (\<lambda>Obj. ClassOf W Obj = SubobjectClass) (DefaultSubobjects W Actor) of
            None \<Rightarrow> Some (Inl CheckFailed)
          | Some Subobject \<Rightarrow>
             (case CreateEntity_Object W S Channel Subobject SubobjectInfo of
                None \<Rightarrow> None
              | Some (Inl e) \<Rightarrow> Some (Inl e)
              | Some (Inr (S1, Data)) \<Rightarrow>
                  CreateEntity_Subobjects W Channel Actor Rest S1 (Datas @ [Data]))))"

text \<open>
  \<^verbatim>\<open>CreateEntity\<close>. The access control lists, the position, metadata and RPC components
  are functions of the actor, the worker id and the class infos, and are not kept apart
  from them. The first loop over the subobject classes only checks their class infos.
  The request that goes out names the entity id, the worker id, the entity type, the
  working set parent, and per object the change states its data was built from.
\<close>

definition CreateEntity ::
  "SenderWorld \<Rightarrow> USpatialSender \<Rightarrow> string \<Rightarrow> string \<Rightarrow> nat \<Rightarrow> int option
   \<Rightarrow> (error + (USpatialSender \<times> outgoing list \<times> int)) option" where
  "CreateEntity W S ClientWorkerId EntityType Channel WorkingSetParentId =
     (case FindClassInfoByClass W (ClassOf W (ChannelActor W Channel)) of
        None \<Rightarrow> Some (Inl CheckFailed)
      | Some Info \<Rightarrow>
          if \<exists>SubobjectClass \<in> set (SubobjectClasses Info). FindClassInfoByClass W SubobjectClass = None
          then Some (Inl CheckFailed)
          else
           (case CreateEntity_Object W S Channel (ChannelActor W Channel) Info of
              None \<Rightarrow> None
            | Some (Inl e) \<Rightarrow> Some (Inl e)
            | Some (Inr (S1, ActorData)) \<Rightarrow>
               (case CreateEntity_Subobjects W Channel (ChannelActor W Channel)
                       (SubobjectClasses Info) S1 [ActorData] of
                  None \<Rightarrow> None
                | Some (Inl e) \<Rightarrow> Some (Inl e)
                | Some (Inr (S2, Datas)) \<Rightarrow>
                    Some (Inr (S2\<lparr>PendingActorRequests :=
                                    AList.update (NextRequestId S2) Channel (PendingActorRequests S2),
                                  NextRequestId := NextRequestId S2 + 1\<rparr>,
                               [CreateEntityRequest (NextRequestId S2) (ChannelEntityId W Channel)
                                  ClientWorkerId EntityType WorkingSetParentId Datas],
                               NextRequestId S2)))))"

definition SendCreateEntityRequest ::
  "SenderWorld \<Rightarrow> USpatialSender \<Rightarrow> nat \<Rightarrow> string \<Rightarrow> int option
   \<Rightarrow> (error + (USpatialSender \<times> outgoing list)) option" where
  "SendCreateEntityRequest W S Channel PlayerWorkerId WorkingSetParentId =
     (case CreateEntity W S PlayerWorkerId (ClassPath W (ClassOf W (ChannelActor W Channel)))
             Channel WorkingSetParentId of
        None \<Rightarrow> None
      | Some (Inl e) \<Rightarrow> Some (Inl e)
      | Some (Inr (S1, Sent, RequestId)) \<Rightarrow>
          Some (Inr (S1, Sent @ [AddPendingActorRequest RequestId Channel])))"

definition SendReserveEntityIdRequest :: "USpatialSender \<Rightarrow> nat \<Rightarrow> USpatialSender \<times> outgoing list" where
  "SendReserveEntityIdRequest S Channel =
     (S\<lparr>NextRequestId := NextRequestId S + 1\<rparr>,
      [ReserveEntityIdRequest (NextRequestId S), AddPendingActorRequest (NextRequestId S) Channel])"

section \<open>The sender: remote procedure calls\<close>

text \<open>
  \<^verbatim>\<open>CreateRPCCommandRequest\<close> and \<^verbatim>\<open>CreateMulticastUpdate\<close> decide alike whether the
  call can go out: the result is \<open>Inl\<close> the unresolved object (the target, or the first
  unresolved object the payload writer met) or \<open>Inr\<close> the target's entity id.
\<close>

definition CreateRPCCommandRequest :: "SenderWorld \<Rightarrow> nat \<Rightarrow> nat \<Rightarrow> nat \<Rightarrow> nat + int" where
  "CreateRPCCommandRequest W TargetObject' Function' Parameters' =
     (case ObjectEntity W TargetObject' of
        None \<Rightarrow> Inl TargetObject'
      | Some Entity \<Rightarrow>
         (case PayloadUnresolved W Function' Parameters' of
            [] \<Rightarrow> Inr Entity
          | Object # _ \<Rightarrow> Inl Object))"

definition CreateMulticastUpdate :: "SenderWorld \<Rightarrow> nat \<Rightarrow> nat \<Rightarrow> nat \<Rightarrow> nat + int" where
  "CreateMulticastUpdate W TargetObject' Function' Parameters' =
     (case ObjectEntity W TargetObject' of
        None \<Rightarrow> Inl TargetObject'
      | Some Entity \<Rightarrow>
         (case PayloadUnresolved W Function' Parameters' of
            [] \<Rightarrow> Inr Entity
          | Object # _ \<Rightarrow> Inl Object))"

definition QueueOutgoingRPC :: "USpatialSender \<Rightarrow> nat \<Rightarrow> nat \<Rightarrow> nat \<Rightarrow> nat \<Rightarrow> USpatialSender" where
  "QueueOutgoingRPC S UnresolvedObject TargetObject' Function' Parameters' =
     S\<lparr>OutgoingRPCs := AList.update UnresolvedObject
          ((case map_of (OutgoingRPCs S) UnresolvedObject of None \<Rightarrow> [] | Some RPCList \<Rightarrow> RPCList)
             @ [\<lparr>TargetObject = TargetObject', Function = Function', Parameters = Parameters'\<rparr>])
          (OutgoingRPCs S)\<rparr>"

text \<open>
  \<^verbatim>\<open>SendRPC\<close>. A parameter block is named by a number; a copy made for the queue has
  the contents, and so the name, of the original. Destroying an owned block is recorded.
\<close>

definition SendRPC ::
  "SenderWorld \<Rightarrow> USpatialSender \<Rightarrow> nat \<Rightarrow> nat \<Rightarrow> nat \<Rightarrow> bool \<Rightarrow> error + (USpatialSender \<times> outgoing list)" where
  "SendRPC W S TargetObject' Function' Parameters' bOwnParameters =
     (case FindClassInfoByClass W (ClassOf W TargetObject') of
        None \<Rightarrow> Inr (S, [])
      | Some Info \<Rightarrow>
         (case map_of (RPCInfoMap Info) Function' of
            None \<Rightarrow> Inl CheckFailed
          | Some RPCInfo \<Rightarrow>
             (case RPCType RPCInfo of
                RPC_Count \<Rightarrow> Inl CheckFailed
              | RPC_NetMulticast \<Rightarrow>
                 (case CreateMulticastUpdate W TargetObject' Function' Parameters' of
                    Inl UnresolvedObject \<Rightarrow>
                      Inr (QueueOutgoingRPC S UnresolvedObject TargetObject' Function' Parameters', [])
                  | Inr EntityId' \<Rightarrow>
                      if \<not> (EntityId' > 0) then Inl CheckFailed
                      else Inr (S, [MulticastUpdate EntityId' (RPCComponents Info (RPCType RPCInfo))
                                      (RPCIndex RPCInfo + 1) Function' Parameters']
                                   @ (if bOwnParameters then [DestroyParameters Function' Parameters']
                                      else [])))
              | _ \<Rightarrow>
                 (case CreateRPCCommandRequest W TargetObject' Function' Parameters' of
                    Inl UnresolvedObject \<Rightarrow>
                      Inr (QueueOutgoingRPC S UnresolvedObject TargetObject' Function' Parameters', [])
                  | Inr EntityId' \<Rightarrow>
                      if \<not> (EntityId' > 0) then Inl CheckFailed
                      else Inr (S, [CommandRequest EntityId' (RPCComponents Info (RPCType RPCInfo))
                                      (RPCIndex RPCInfo + 1) Function' Parameters']
                                   @ (if bOwnParameters then [DestroyParameters Function' Parameters']
                                      else []))))))"

fun ResolveOutgoingRPCs_loop ::
  "SenderWorld \<Rightarrow> FPendingRPCParams list \<Rightarrow> USpatialSender \<Rightarrow> outgoing list
   \<Rightarrow> error + (USpatialSender \<times> outgoing list)" where
  "ResolveOutgoingRPCs_loop W [] S Sent = Inr (S, Sent)"
| "ResolveOutgoingRPCs_loop W (RPCParams # Rest) S Sent =
     (case SendRPC W S (TargetObject RPCParams) (Function RPCParams) (Parameters RPCParams) True of
        Inl e \<Rightarrow> Inl e
      | Inr (S1, Sent1) \<Rightarrow> ResolveOutgoingRPCs_loop W Rest S1 (Sent @ Sent1))"

definition ResolveOutgoingRPCs ::
  "SenderWorld \<Rightarrow> USpatialSender \<Rightarrow> nat \<Rightarrow> error + (USpatialSender \<times> outgoing list)" where
  "ResolveOutgoingRPCs W S Object =
     (case map_of (OutgoingRPCs S) Object of
        None \<Rightarrow> Inr (S, [])
      | Some RPCList \<Rightarrow>
         (case ResolveOutgoingRPCs_loop W RPCList S [] of
            Inl e \<Rightarrow> Inl e
          | Inr (S1, Sent) \<Rightarrow> Inr (S1\<lparr>OutgoingRPCs := AList.delete Object (OutgoingRPCs S1)\<rparr>, Sent)))"

section \<open>The actor channel\<close>

text \<open>
  \<^verbatim>\<open>FRepChangelistState\<close> is the engine's shared change-list state of an object, as
  \<^verbatim>\<open>ChangelistMgr->Update\<close> left it; the channel only reads it. Of its members the
  history array, \<^verbatim>\<open>HistoryEnd\<close> and \<^verbatim>\<open>CompareIndex\<close> are read.
\<close>

record FRepChangelistState =
  ChangelistHistory :: "nat \<Rightarrow> FRepChangedHistory"
  ChangelistHistoryEnd :: int
  CompareIndex :: int

text \<open>
  The calls a channel makes to the sender, the working set manager, the net driver, the
  entity registry, the global state manager and the package map, and the log lines that
  the claims speak of.
\<close>

datatype ELogVerbosity = LogError | LogWarning | LogLog | LogVerbose

datatype channel_call =
    Sender_SendReserveEntityIdRequest
  | Sender_SendCreateEntityRequest string "int option"
  | Sender_SendComponentUpdates nat "handle list option" "handle list option"
  | WorkingSetManager_RegisterNewWorkingSet
  | WorkingSetManager_EnqueueForWorkingSet string int
  | WorkingSetManager_CreateWorkingSet int
  | NetDriver_AddActorChannel int
  | EntityRegistry_AddToRegistry int
  | GlobalStateManager_UpdateSingletonEntityId int
  | PackageMap_ResolveEntityActor int
  | UE_LOG ELogVerbosity

text \<open>
  The channel's members that the modelled functions read or write. \<open>Actor\<close> is
  \<open>None\<close> for a null pointer; \<open>RepState\<close> is \<^verbatim>\<open>ActorReplicator->RepState\<close>.
  \<^verbatim>\<open>ActorHandoverShadowData\<close> points at the actor's entry of
  \<^verbatim>\<open>HandoverShadowDataMap\<close>: a write through it is made to both.
\<close>

record USpatialActorChannel =
  Actor :: "nat option"
  EntityId :: int
  bCreatingNewEntity :: bool
  WorkingSetId :: int
  RepState :: FRepState
  ActorHandoverShadowData :: "8 word list"
  HandoverShadowDataMap :: "(nat \<times> 8 word list) list"

text \<open>
  What a channel function reads from its collaborators during one call.
  \<^verbatim>\<open>IsReadyForReplication\<close> is defined in the channel's header; \<^verbatim>\<open>MergeChangeList\<close>
  is the layout's, taken with the object's data as \<^verbatim>\<open>MergeChangeList(Data, Dirty1, Dirty2,
  MergedDirty)\<close>: the function gives \<open>MergedDirty\<close> from \<open>Dirty1\<close> and \<open>Dirty2\<close>.
  \<open>NewWorkingSetId\<close> and \<open>WorkingSetSize\<close> are the answers of the working set
  manager; \<open>Contains\<close> is \<^verbatim>\<open>FString::Contains\<close>.
\<close>

record ChannelWorld =
  IsReadyForReplication :: bool
  RepState_MAX_CHANGE_HISTORY :: int
  Changelist_MAX_CHANGE_HISTORY :: int
  ChangelistState :: FRepChangelistState
  MergeChangeList :: "handle list \<Rightarrow> handle list \<Rightarrow> handle list"
  ObjectClassInfo :: "FClassInfo option"
  ObjectMemory :: "8 word list"
  IsSupportedClass :: bool
  ClassName :: string
  Contains :: "string \<Rightarrow> string \<Rightarrow> bool"
  NewWorkingSetId :: int
  WorkingSetSize :: "int \<Rightarrow> int"
  PlayerWorkerId :: string
  ActorIsPendingKill :: bool
  NetModeBelowClient :: bool
  RegistryEntityId :: int
  HandoverSubobjects :: "(nat \<times> FClassInfo option) list"
  ClassIsSingleton :: bool
  IsFullNameStableForNetworking :: bool








definition RegisterEntityId :: "ChannelWorld \<Rightarrow> int \<Rightarrow> channel_call list" where
  "RegisterEntityId W ActorEntityId =
     [EntityRegistry_AddToRegistry ActorEntityId, NetDriver_AddActorChannel ActorEntityId]
     @ (if ClassIsSingleton W then [GlobalStateManager_UpdateSingletonEntityId ActorEntityId] else [])
     @ (if IsFullNameStableForNetworking W then [PackageMap_ResolveEntityActor ActorEntityId] else [])"

text \<open>
  The response ops of the worker SDK: the status code and the entity id are read.
  \<^verbatim>\<open>WORKER_STATUS_CODE_SUCCESS\<close> is the SDK's constant.
\<close>

record Worker_ResponseOp =
  status_code :: nat
  entity_id :: int

definition WORKER_STATUS_CODE_SUCCESS :: nat where
  "WORKER_STATUS_CODE_SUCCESS = 1"

definition OnReserveEntityIdResponse ::
  "ChannelWorld \<Rightarrow> USpatialActorChannel \<Rightarrow> Worker_ResponseOp \<Rightarrow> USpatialActorChannel \<times> channel_call list" where
  "OnReserveEntityIdResponse W Ch Op =
     (if Actor Ch = None \<or> ActorIsPendingKill W then (Ch, [UE_LOG LogWarning])
      else if status_code Op \<noteq> WORKER_STATUS_CODE_SUCCESS
        then (Ch, [UE_LOG LogError, Sender_SendReserveEntityIdRequest])
      else (Ch\<lparr>EntityId := entity_id Op\<rparr>, [UE_LOG LogVerbose] @ RegisterEntityId W (entity_id Op)))"

definition OnCreateEntityResponse ::
  "ChannelWorld \<Rightarrow> USpatialActorChannel \<Rightarrow> Worker_ResponseOp
   \<Rightarrow> error + (USpatialActorChannel \<times> channel_call list)" where
  "OnCreateEntityResponse W Ch Op =
     (if \<not> NetModeBelowClient W then Inl CheckFailed
      else if Actor Ch = None \<or> ActorIsPendingKill W then Inr (Ch, [UE_LOG LogWarning])
      else if status_code Op \<noteq> WORKER_STATUS_CODE_SUCCESS
        then Inr (Ch, [UE_LOG LogError, Sender_SendCreateEntityRequest (PlayerWorkerId W) None])
      else Inr (Ch, [UE_LOG LogVerbose]))"

text \<open>
  A call of the channel to the sender, carried out by the sender: the channel passes
  itself (\<open>Channel\<close>) along. The other calls go to collaborators that are not modelled
  and leave the sender as it is.
\<close>

definition Sender_receives ::
  "SenderWorld \<Rightarrow> nat \<Rightarrow> channel_call \<Rightarrow> USpatialSender
   \<Rightarrow> (error + (USpatialSender \<times> outgoing list)) option" where
  "Sender_receives W Channel Call S =
     (case Call of
        Sender_SendReserveEntityIdRequest \<Rightarrow> Some (Inr (SendReserveEntityIdRequest S Channel))
      | Sender_SendCreateEntityRequest Worker Parent \<Rightarrow> SendCreateEntityRequest W S Channel Worker Parent
      | Sender_SendComponentUpdates Object RepChanges HandoverChanges \<Rightarrow>
          Some (SendComponentUpdates W S Object Channel RepChanges HandoverChanges)
      | _ \<Rightarrow> Some (Inr (S, [])))"


section \<open>Notions used to state the properties\<close>

text \<open>
  The offsets at which \<^verbatim>\<open>GetHandoverChangeList\<close> keeps the handover properties in the
  shadow data, the offset after the last of them, and the stored and the current value
  of a property.
\<close>

fun ShadowOffsets :: "nat \<Rightarrow> FHandoverPropertyInfo list \<Rightarrow> nat list" where
  "ShadowOffsets ShadowDataOffset [] = []"
| "ShadowOffsets ShadowDataOffset (PropertyInfo # Rest) =
     Align ShadowDataOffset (MinAlignment (Property PropertyInfo))
     # ShadowOffsets (Align ShadowDataOffset (MinAlignment (Property PropertyInfo))
                       + ElementSize (Property PropertyInfo)) Rest"

fun ShadowEnd :: "nat \<Rightarrow> FHandoverPropertyInfo list \<Rightarrow> nat" where
  "ShadowEnd ShadowDataOffset [] = ShadowDataOffset"
| "ShadowEnd ShadowDataOffset (PropertyInfo # Rest) =
     ShadowEnd (Align ShadowDataOffset (MinAlignment (Property PropertyInfo))
                 + ElementSize (Property PropertyInfo)) Rest"

definition StoredValue :: "8 word list \<Rightarrow> FHandoverPropertyInfo \<times> nat \<Rightarrow> 8 word list" where
  "StoredValue ShadowData Slot = take (ElementSize (Property (fst Slot))) (drop (snd Slot) ShadowData)"

definition CurrentValue :: "8 word list \<Rightarrow> FHandoverPropertyInfo \<Rightarrow> 8 word list" where
  "CurrentValue Object PropertyInfo =
     take (ElementSize (Property PropertyInfo)) (drop (Offset PropertyInfo) Object)"

text \<open>
  The loop of \<^verbatim>\<open>CreateInitialRepChangeState\<close> once more, by recursion over the commands
  that are left, for layouts on which the 16-bit counter does not wrap.
\<close>

fun InitialRepChanged_from :: "nat \<Rightarrow> nat \<Rightarrow> int \<Rightarrow> FRepLayoutCmd list \<Rightarrow> error + handle list" where
  "InitialRepChanged_from CmdCount CmdIdx DynamicArrayDepth [] = Inr []"
| "InitialRepChanged_from CmdCount CmdIdx DynamicArrayDepth (Cmd # Rest) =
     (case Type Cmd of
        REPCMD_DynamicArray \<Rightarrow>
          (case InitialRepChanged_from CmdCount (CmdIdx + 1) (DynamicArrayDepth + 1) Rest of
             Inl e \<Rightarrow> Inl e
           | Inr Out \<Rightarrow>
               Inr (RelativeHandle Cmd
                    # (if DynamicArrayDepth + 1 = 1
                       then [word_of_int (uint (EndCmd Cmd) - int CmdIdx - 2)] else []) @ Out))
      | REPCMD_Return \<Rightarrow>
          if \<not> (DynamicArrayDepth - 1 \<ge> 0 \<or> int CmdIdx = int CmdCount - 1) then Inl CheckFailed
          else (case InitialRepChanged_from CmdCount (CmdIdx + 1) (DynamicArrayDepth - 1) Rest of
                  Inl e \<Rightarrow> Inl e
                | Inr Out \<Rightarrow> Inr (RelativeHandle Cmd # Out))
      | REPCMD_Property \<Rightarrow>
          (case InitialRepChanged_from CmdCount (CmdIdx + 1) DynamicArrayDepth Rest of
             Inl e \<Rightarrow> Inl e
           | Inr Out \<Rightarrow> Inr (RelativeHandle Cmd # Out)))"

text \<open>
  The array depth before command \<open>i\<close> (arrays opened less returns met), a dynamic array
  at the root level, the count marker of an array command, and what command \<open>i\<close>
  contributes to the initial change list: its handle, and after it the count marker when
  it is a dynamic array at the root level.
\<close>

definition DepthBefore :: "FRepLayoutCmd list \<Rightarrow> nat \<Rightarrow> int" where
  "DepthBefore Cmds' i =
     int (length (filter (\<lambda>Cmd. Type Cmd = REPCMD_DynamicArray) (take i Cmds')))
     - int (length (filter (\<lambda>Cmd. Type Cmd = REPCMD_Return) (take i Cmds')))"

definition RootArray :: "FRepLayoutCmd list \<Rightarrow> nat \<Rightarrow> bool" where
  "RootArray Cmds' i = (Type (Cmds' ! i) = REPCMD_DynamicArray \<and> DepthBefore Cmds' i = 0)"

definition CountMarker :: "FRepLayoutCmd list \<Rightarrow> nat \<Rightarrow> handle" where
  "CountMarker Cmds' i = word_of_int (uint (EndCmd (Cmds' ! i)) - int i - 2)"

definition InitialHandles :: "FRepLayoutCmd list \<Rightarrow> nat \<Rightarrow> handle list" where
  "InitialHandles Cmds' i =
     RelativeHandle (Cmds' ! i) # (if RootArray Cmds' i then [CountMarker Cmds' i] else [])"

text \<open>
  Following the words of the specification instead: a count marker after the handle of
  every array-typed command, nested or not.
\<close>

definition ClaimedInitialHandles :: "FRepLayoutCmd list \<Rightarrow> nat \<Rightarrow> handle list" where
  "ClaimedInitialHandles Cmds' i =
     RelativeHandle (Cmds' ! i)
     # (if Type (Cmds' ! i) = REPCMD_DynamicArray then [CountMarker Cmds' i] else [])"


section \<open>The two indexes of the sender, read as maps\<close>

text \<open>
  \<open>Pending P (ChannelObjectPair, Handle)\<close> is the entry that the index keyed by property
  holds for a handle of a channel and object; \<open>Under Ob T\<close> is the same reading of what
  the index keyed by object holds under the object \<open>T\<close>.
\<close>

definition Pending ::
  "FChannelToHandleToUnresolved \<Rightarrow> FChannelObjectPair \<times> handle \<Rightarrow> FUnresolvedEntry option" where
  "Pending P = (\<lambda>(ChannelObjectPair, Handle').
     case map_of P ChannelObjectPair of None \<Rightarrow> None
     | Some HandleToUnresolved \<Rightarrow> map_of HandleToUnresolved Handle')"

definition Under ::
  "FOutgoingRepUpdates \<Rightarrow> nat \<Rightarrow> FChannelObjectPair \<times> handle \<Rightarrow> FUnresolvedEntry option" where
  "Under Ob T = (case map_of Ob T of None \<Rightarrow> Map.empty
                 | Some ChannelToUnresolved \<Rightarrow> Pending ChannelToUnresolved)"

text \<open>
  The shape of the index keyed by object: under every object a non-empty map without
  repeated keys, of non-empty maps without repeated keys.
\<close>

definition wfC :: "FChannelToHandleToUnresolved \<Rightarrow> bool" where
  "wfC cm = (cm \<noteq> [] \<and> distinct (map fst cm) \<and>
            (\<forall>(k, m) \<in> set cm. m \<noteq> [] \<and> distinct (map fst m)))"

definition wfO :: "FOutgoingRepUpdates \<Rightarrow> bool" where
  "wfO Ob = (\<forall>T cm. map_of Ob T = Some cm \<longrightarrow> wfC cm)"

text \<open>
  The state of the two indexes and the store of shared sets that every successful call
  of the sender keeps. Every pending entry points to a set of the store, below the next
  free address; no two pending entries share a set; and what the index keyed by object
  holds under \<open>T\<close> is a pending entry whose set names \<open>T\<close>. The kinds and objects of
  \<open>X\<close> are exempt from the last part: \<^verbatim>\<open>ResolveOutgoingOperations\<close> takes the
  object it resolves out of the sets first and removes its entry last.
\<close>

definition InvX :: "(bool \<times> nat) set \<Rightarrow> USpatialSender \<Rightarrow> bool" where
  "InvX X S =
     ((\<forall>b. wfO (ObjectToUnresolved b S)) \<and>
      (\<forall>b key p. Pending (PropertyToUnresolved b S) key = Some p \<longrightarrow>
         p < NextUnresolvedEntry S \<and> UnresolvedSets S p \<noteq> None) \<and>
      (\<forall>b b' key key' p. Pending (PropertyToUnresolved b S) key = Some p \<longrightarrow>
         Pending (PropertyToUnresolved b' S) key' = Some p \<longrightarrow> b = b' \<and> key = key') \<and>
      (\<forall>b T key p. (b, T) \<notin> X \<longrightarrow> Under (ObjectToUnresolved b S) T key = Some p \<longrightarrow>
         Pending (PropertyToUnresolved b S) key = Some p \<and>
         (\<exists>ts. UnresolvedSets S p = Some ts \<and> T \<in> set ts)))"

text \<open>
  The other direction: every object that the set of a pending entry names holds the
  entry in the index keyed by object.
\<close>

definition Complete :: "USpatialSender \<Rightarrow> bool \<Rightarrow> FChannelObjectPair \<times> handle \<Rightarrow> bool" where
  "Complete S b key =
     (\<forall>p ts T. Pending (PropertyToUnresolved b S) key = Some p \<longrightarrow> UnresolvedSets S p = Some ts \<longrightarrow>
        T \<in> set ts \<longrightarrow> Under (ObjectToUnresolved b S) T key = Some p)"

text \<open>
  What a call may have changed: nothing but the entries of the keys in \<open>K\<close> in the two
  indexes of one kind, and the store from the next free address on.
\<close>

definition Frame :: "(FChannelObjectPair \<times> handle) set \<Rightarrow> bool \<Rightarrow> USpatialSender \<Rightarrow> USpatialSender \<Rightarrow> bool" where
  "Frame K b S S' =
     (NextUnresolvedEntry S \<le> NextUnresolvedEntry S' \<and>
      (\<forall>p. p < NextUnresolvedEntry S \<longrightarrow> UnresolvedSets S' p = UnresolvedSets S p) \<and>
      (\<forall>key. key \<notin> K \<longrightarrow>
         Pending (PropertyToUnresolved b S') key = Pending (PropertyToUnresolved b S) key) \<and>
      (\<forall>T key. key \<notin> K \<longrightarrow>
         Under (ObjectToUnresolved b S') T key = Under (ObjectToUnresolved b S) T key) \<and>
      PropertyToUnresolved (\<not> b) S' = PropertyToUnresolved (\<not> b) S \<and>
      ObjectToUnresolved (\<not> b) S' = ObjectToUnresolved (\<not> b) S)"

text \<open>
  \<open>Names S b key T\<close>: the set of the pending entry of \<open>key\<close> names the object \<open>T\<close>.
\<close>

definition Names :: "USpatialSender \<Rightarrow> bool \<Rightarrow> FChannelObjectPair \<times> handle \<Rightarrow> nat \<Rightarrow> bool" where
  "Names S b key T =
     (\<exists>p ts. Pending (PropertyToUnresolved b S) key = Some p \<and> UnresolvedSets S p = Some ts \<and>
        T \<in> set ts)"

text \<open>
  What one call of \<^verbatim>\<open>ResolveOutgoingOperations\<close> for the object \<open>T\<close> is to send.
  An entry is resolved by \<open>T\<close> when its set names no other object. A resolved handle
  goes out followed by two zero handles when it is the handle of a dynamic array and the
  kind is not handover. The handles resolved for one channel and object go out in one
  call of \<^verbatim>\<open>SendComponentUpdates\<close>, closed by a zero handle when the kind is not
  handover; nothing goes out for a channel or object that is no longer valid, nor when
  no handle was resolved.
\<close>

definition Resolved :: "USpatialSender \<Rightarrow> nat \<Rightarrow> FUnresolvedEntry \<Rightarrow> bool" where
  "Resolved S T p = (case UnresolvedSets S p of None \<Rightarrow> False | Some ts \<Rightarrow> removeAll T ts = [])"

definition ArrayFraming :: "SenderWorld \<Rightarrow> bool \<Rightarrow> FChannelObjectPair \<Rightarrow> handle \<Rightarrow> handle list" where
  "ArrayFraming W b k h =
     h # (if \<not> b \<and> IsDynamicArrayHandle
                      (if ObjectHasReplicator W (fst k) (snd k)
                       then Some (ObjectRepLayout W (snd k)) else None) h = Inr True
          then [0, 0] else [])"

definition ResolvedHandles :: "USpatialSender \<Rightarrow> nat \<Rightarrow> FHandleToUnresolved \<Rightarrow> handle list" where
  "ResolvedHandles S T m = map fst (filter (\<lambda>(h, p). Resolved S T p) m)"

definition FlushedHandles ::
  "SenderWorld \<Rightarrow> USpatialSender \<Rightarrow> nat \<Rightarrow> bool \<Rightarrow> FChannelObjectPair \<Rightarrow> FHandleToUnresolved
   \<Rightarrow> handle list" where
  "FlushedHandles W S T b k m = concat (map (ArrayFraming W b k) (ResolvedHandles S T m))"

definition FlushOf ::
  "SenderWorld \<Rightarrow> USpatialSender \<Rightarrow> nat \<Rightarrow> bool \<Rightarrow> FChannelObjectPair \<times> FHandleToUnresolved
   \<Rightarrow> outgoing list" where
  "FlushOf W S T b = (\<lambda>(k, m).
     if \<not> ChannelValid W (fst k) \<or> \<not> ObjectValid W (snd k) \<or> ResolvedHandles S T m = [] then []
     else [ComponentUpdates (fst k) (ChannelEntityId W (fst k)) (snd k)
             (if b then None else Some (FlushedHandles W S T b k m @ [0]))
             (if b then Some (FlushedHandles W S T b k m) else None)])"

text \<open>
  \<open>PairValid\<close>: both weak pointers of a \<^verbatim>\<open>FChannelObjectPair\<close> are valid.
  \<open>Registered\<close>: the entries of a \<^verbatim>\<open>FChannelToHandleToUnresolved\<close>, one per channel,
  object and handle.
\<close>

definition PairValid :: "SenderWorld \<Rightarrow> FChannelObjectPair \<Rightarrow> bool" where
  "PairValid W k = (ChannelValid W (fst k) \<and> ObjectValid W (snd k))"

definition Registered ::
  "FChannelToHandleToUnresolved \<Rightarrow> ((FChannelObjectPair \<times> handle) \<times> FUnresolvedEntry) list" where
  "Registered cm = concat (map (\<lambda>(k, m). map (\<lambda>(h, p). ((k, h), p)) m) cm)"

text \<open>
  What resolving \<open>T\<close> may have changed: the sets at the addresses in \<open>A\<close> have lost
  \<open>T\<close>, the entries of the keys in \<open>K\<close> may have changed in the two indexes of the kind,
  and the store from the next free address on. What the index keyed by object holds
  under \<open>T\<close> itself is as before.
\<close>

definition RFrame ::
  "nat \<Rightarrow> bool \<Rightarrow> FUnresolvedEntry set \<Rightarrow> (FChannelObjectPair \<times> handle) set
   \<Rightarrow> USpatialSender \<Rightarrow> USpatialSender \<Rightarrow> bool" where
  "RFrame T b A K S S' =
     (NextUnresolvedEntry S \<le> NextUnresolvedEntry S' \<and>
      (\<forall>p. p < NextUnresolvedEntry S \<longrightarrow>
         UnresolvedSets S' p = (if p \<in> A then map_option (removeAll T) (UnresolvedSets S p)
                                else UnresolvedSets S p)) \<and>
      (\<forall>key. key \<notin> K \<longrightarrow>
         Pending (PropertyToUnresolved b S') key = Pending (PropertyToUnresolved b S) key) \<and>
      (\<forall>T' key. key \<notin> K \<longrightarrow>
         Under (ObjectToUnresolved b S') T' key = Under (ObjectToUnresolved b S) T' key) \<and>
      map_of (ObjectToUnresolved b S') T = map_of (ObjectToUnresolved b S) T \<and>
      PropertyToUnresolved (\<not> b) S' = PropertyToUnresolved (\<not> b) S \<and>
      ObjectToUnresolved (\<not> b) S' = ObjectToUnresolved (\<not> b) S)"

text \<open>
  The entries that the loop of \<^verbatim>\<open>ResolveOutgoingOperations\<close> reaches: those of the
  channels and objects that are still valid.
\<close>

definition LiveEntries ::
  "SenderWorld \<Rightarrow> FChannelToHandleToUnresolved
   \<Rightarrow> ((FChannelObjectPair \<times> handle) \<times> FUnresolvedEntry) list" where
  "LiveEntries W cm = Registered (filter (\<lambda>(k, m). PairValid W k) cm)"

text \<open>
  What the index keyed by object holds under \<open>T\<close>, as the list that
  \<^verbatim>\<open>ResolveOutgoingOperations\<close> runs over.
\<close>

definition RegisteredUnder :: "USpatialSender \<Rightarrow> bool \<Rightarrow> nat \<Rightarrow> FChannelToHandleToUnresolved" where
  "RegisteredUnder S b T =
     (case map_of (ObjectToUnresolved b S) T of None \<Rightarrow> [] | Some ChannelToUnresolved \<Rightarrow> ChannelToUnresolved)"

text \<open>
  The states of the sender that calls of \<^verbatim>\<open>QueueOutgoingUpdate\<close>,
  \<^verbatim>\<open>ResetOutgoingUpdate\<close> and \<^verbatim>\<open>ResolveOutgoingOperations\<close> reach from a sender
  whose four containers are empty, each call returning without a failed check. With
  \<open>AllValid\<close>, every channel and object registered under the object that a call of
  \<^verbatim>\<open>ResolveOutgoingOperations\<close> resolves is valid at that call.
\<close>

inductive Reachable :: "bool \<Rightarrow> USpatialSender \<Rightarrow> bool" for AllValid :: bool where
  Reachable_Init:
    "RepPropertyToUnresolved S = [] \<Longrightarrow> RepObjectToUnresolved S = [] \<Longrightarrow>
     HandoverPropertyToUnresolved S = [] \<Longrightarrow> HandoverObjectToUnresolved S = [] \<Longrightarrow>
     Reachable AllValid S"
| Reachable_Queue:
    "Reachable AllValid S \<Longrightarrow> QueueOutgoingUpdate S k h ts b = Inr S' \<Longrightarrow> Reachable AllValid S'"
| Reachable_Reset:
    "Reachable AllValid S \<Longrightarrow> ResetOutgoingUpdate S k h b = Inr S' \<Longrightarrow> Reachable AllValid S'"
| Reachable_Resolve:
    "Reachable AllValid S \<Longrightarrow> ResolveOutgoingOperations W S T b = Inr (S', Sent) \<Longrightarrow>
     (AllValid \<Longrightarrow> \<forall>(k, m) \<in> set (RegisteredUnder S b T). PairValid W k) \<Longrightarrow>
     Reachable AllValid S'"

text \<open>
  \<open>Carries b (ChannelObjectPair, Handle) e\<close>: the call \<open>e\<close> is a
  \<^verbatim>\<open>SendComponentUpdates\<close> for the channel and object, and the handle is in its
  \<^verbatim>\<open>HandoverChanges\<close> (\<open>b\<close>) or in its \<^verbatim>\<open>RepChanges\<close>.
\<close>

definition Carries :: "bool \<Rightarrow> FChannelObjectPair \<times> handle \<Rightarrow> outgoing \<Rightarrow> bool" where
  "Carries b key e =
     (case e of
        ComponentUpdates Channel Entity Object RepChanges HandoverChanges \<Rightarrow>
          (Channel, Object) = fst key \<and>
          snd key \<in> set (case (if b then HandoverChanges else RepChanges) of
                            None \<Rightarrow> [] | Some Handles \<Rightarrow> Handles)
      | _ \<Rightarrow> False)"

section \<open>Concrete states\<close>

text \<open>A ring of capacity 4 holding two change lists, and one whose cursors are five apart.\<close>

definition example_ring :: FRepState where
  "example_ring = \<lparr>ChangeHistory = (\<lambda>_. \<lparr>Changed = [], OutPacketIdRange = FPacketIdRange\<rparr>)
       (1 := \<lparr>Changed = [5], OutPacketIdRange = FPacketIdRange\<rparr>,
        2 := \<lparr>Changed = [7, 9], OutPacketIdRange = FPacketIdRange\<rparr>),
     HistoryStart = 1, HistoryEnd = 3, LastChangelistIndex = 0, LastCompareIndex = 0\<rparr>"

definition example_overfull_ring :: FRepState where
  "example_overfull_ring = \<lparr>ChangeHistory = (\<lambda>_. \<lparr>Changed = [1], OutPacketIdRange = FPacketIdRange\<rparr>),
     HistoryStart = 2, HistoryEnd = 7, LastChangelistIndex = 0, LastCompareIndex = 0\<rparr>"

text \<open>
  A class with two handover properties, an object of the class and a shadow buffer that
  differs from it in the second property.
\<close>

definition example_handover_info :: FClassInfo where
  "example_handover_info = \<lparr>HandoverProperties =
       [\<lparr>Handle = 1, Offset = 0, ArrayIdx = 0,
          Property = \<lparr>MinAlignment = 1, ElementSize = 2, ArrayDim = 1\<rparr>\<rparr>,
        \<lparr>Handle = 2, Offset = 4, ArrayIdx = 0,
          Property = \<lparr>MinAlignment = 4, ElementSize = 4, ArrayDim = 1\<rparr>\<rparr>],
     SubobjectClasses = [], RPCInfoMap = [], RPCComponents = (\<lambda>_. 0)\<rparr>"

definition example_object_memory :: "8 word list" where
  "example_object_memory = [1, 2, 0, 0, 5, 6, 7, 8]"

definition example_shadow_data :: "8 word list" where
  "example_shadow_data = [1, 2, 0, 0, 5, 6, 7, 9]"

text \<open>
  The layout of an array of arrays of a struct with two members: the outer array is at
  the root level, the inner one is nested.
\<close>

definition nested_layout :: FRepLayout where
  "nested_layout = \<lparr>Cmds =
      [\<lparr>Type = REPCMD_DynamicArray, RelativeHandle = 1, EndCmd = 6\<rparr>,
       \<lparr>Type = REPCMD_DynamicArray, RelativeHandle = 1, EndCmd = 5\<rparr>,
       \<lparr>Type = REPCMD_Property, RelativeHandle = 1, EndCmd = 0\<rparr>,
       \<lparr>Type = REPCMD_Property, RelativeHandle = 2, EndCmd = 0\<rparr>,
       \<lparr>Type = REPCMD_Return, RelativeHandle = 0, EndCmd = 0\<rparr>,
       \<lparr>Type = REPCMD_Return, RelativeHandle = 0, EndCmd = 0\<rparr>,
       \<lparr>Type = REPCMD_Return, RelativeHandle = 0, EndCmd = 0\<rparr>],
     BaseHandleToCmdIndex = [0]\<rparr>"






text \<open>
  A layout whose handle 1 is a plain property and whose handle 2 is a dynamic array; a
  world around a sender, in which channel 7 replicates actor 10 of class 1, the actor's
  property 1 names the unresolved object 1 whenever its component data is built, and no
  object other than the actor has an entity; and a sender with nothing pending.
\<close>

definition example_layout :: FRepLayout where
  "example_layout = \<lparr>Cmds =
      [\<lparr>Type = REPCMD_Property, RelativeHandle = 1, EndCmd = 0\<rparr>,
       \<lparr>Type = REPCMD_DynamicArray, RelativeHandle = 2, EndCmd = 4\<rparr>,
       \<lparr>Type = REPCMD_Property, RelativeHandle = 1, EndCmd = 0\<rparr>,
       \<lparr>Type = REPCMD_Return, RelativeHandle = 0, EndCmd = 0\<rparr>,
       \<lparr>Type = REPCMD_Return, RelativeHandle = 0, EndCmd = 0\<rparr>],
     BaseHandleToCmdIndex = [0, 1]\<rparr>"

definition example_sender_world :: SenderWorld where
  "example_sender_world = \<lparr>ChannelValid = (\<lambda>Channel. Channel = 7), ObjectValid = (\<lambda>_. True),
     ChannelEntityId = (\<lambda>_. 42), ChannelActor = (\<lambda>_. 10),
     ObjectHasReplicator = (\<lambda>_ _. True), ObjectRepLayout = (\<lambda>_. example_layout),
     ClassOf = (\<lambda>Object. if Object = 10 then 1 else 0), ClassPath = (\<lambda>_. ''Pawn''),
     FindClassInfoByClass = (\<lambda>Class. if Class = 1 then Some example_handover_info else None),
     DefaultSubobjects = (\<lambda>_. []),
     UpdateFactoryUnresolved = (\<lambda>_ _ _. ([], [])),
     DataFactoryUnresolved = (\<lambda>Object _ _. if Object = 10 then ([(1, [1])], []) else ([], [])),
     ObjectEntity = (\<lambda>Object. if Object = 10 then Some 42 else None),
     PayloadUnresolved = (\<lambda>_ _. [])\<rparr>"

definition example_sender :: USpatialSender where
  "example_sender = \<lparr>RepPropertyToUnresolved = [], RepObjectToUnresolved = [],
     HandoverPropertyToUnresolved = [], HandoverObjectToUnresolved = [],
     OutgoingRPCs = [], PendingActorRequests = [],
     UnresolvedSets = (\<lambda>_. None), NextUnresolvedEntry = 0, NextRequestId = 1\<rparr>"


section \<open>Example states of the sender\<close>

text \<open>
  A sender with two pending entries of the channel 7 and the object 10, not handover:
  handle 1 (a plain property of \<open>example_layout\<close>) waits for the objects 5, 6 and 9,
  handle 2 (a dynamic array) waits for the object 9. Then the same sender after
  \<^verbatim>\<open>ResolveOutgoingOperations\<close> for 5, for 6 and for 9.
\<close>

definition example_pending :: USpatialSender where
  "example_pending = \<lparr>RepPropertyToUnresolved = [((7, 10), [(1, 0), (2, 1)])],
     RepObjectToUnresolved =
       [(5, [((7, 10), [(1, 0)])]), (6, [((7, 10), [(1, 0)])]), (9, [((7, 10), [(1, 0), (2, 1)])])],
     HandoverPropertyToUnresolved = [], HandoverObjectToUnresolved = [],
     OutgoingRPCs = [], PendingActorRequests = [],
     UnresolvedSets = [0 \<mapsto> [5, 6, 9], 1 \<mapsto> [9]], NextUnresolvedEntry = 2, NextRequestId = 1\<rparr>"

definition example_after_5 :: USpatialSender where
  "example_after_5 = example_pending\<lparr>
     RepObjectToUnresolved := [(6, [((7, 10), [(1, 0)])]), (9, [((7, 10), [(1, 0), (2, 1)])])],
     UnresolvedSets := [0 \<mapsto> [6, 9], 1 \<mapsto> [9]]\<rparr>"

definition example_after_6 :: USpatialSender where
  "example_after_6 = example_pending\<lparr>
     RepObjectToUnresolved := [(9, [((7, 10), [(1, 0), (2, 1)])])],
     UnresolvedSets := [0 \<mapsto> [9], 1 \<mapsto> [9]]\<rparr>"

definition example_after_9 :: USpatialSender where
  "example_after_9 = example_pending\<lparr>
     RepPropertyToUnresolved := [], RepObjectToUnresolved := [],
     UnresolvedSets := [0 \<mapsto> [], 1 \<mapsto> []]\<rparr>"

text \<open>
  A sender with one pending entry of the channel 8, which is not valid in
  \<open>example_sender_world\<close>: handle 1 waits for the objects 5, 6 and 9.
\<close>

definition example_stale :: USpatialSender where
  "example_stale = \<lparr>RepPropertyToUnresolved = [((8, 10), [(1, 0)])],
     RepObjectToUnresolved =
       [(5, [((8, 10), [(1, 0)])]), (6, [((8, 10), [(1, 0)])]), (9, [((8, 10), [(1, 0)])])],
     HandoverPropertyToUnresolved = [], HandoverObjectToUnresolved = [],
     OutgoingRPCs = [], PendingActorRequests = [],
     UnresolvedSets = [0 \<mapsto> [5, 6, 9]], NextUnresolvedEntry = 1, NextRequestId = 1\<rparr>"

text \<open>
  A sender with one pending handover entry of the channel 7 and the object 10: handle 3
  waits for the object 9.
\<close>

definition example_handover_pending :: USpatialSender where
  "example_handover_pending = \<lparr>RepPropertyToUnresolved = [], RepObjectToUnresolved = [],
     HandoverPropertyToUnresolved = [((7, 10), [(3, 0)])],
     HandoverObjectToUnresolved = [(9, [((7, 10), [(3, 0)])])],
     OutgoingRPCs = [], PendingActorRequests = [],
     UnresolvedSets = [0 \<mapsto> [9]], NextUnresolvedEntry = 1, NextRequestId = 1\<rparr>"

section \<open>The change-history ring: retirement\<close>

lemma smod_nonneg: "0 \<le> k \<Longrightarrow> 0 < l \<Longrightarrow> (k::int) smod l = k mod l"
  by (simp add: signed_modulo_int_def sgn_if)

lemma UCH_loop_HistoryEnd:
  "UpdateChangelistHistory_loop M i rs = Inr rs' \<Longrightarrow> HistoryEnd rs' = HistoryEnd rs"
proof (induction M i rs rule: UpdateChangelistHistory_loop.induct)
  case (1 M i rs)
  then show ?case
    by (subst (asm) (2) UpdateChangelistHistory_loop.simps) (auto split: if_splits)
qed

lemma UCH_loop_HistoryStart:
  "UpdateChangelistHistory_loop M i rs = Inr rs' \<Longrightarrow> i \<le> HistoryEnd rs \<Longrightarrow>
   HistoryStart rs' = HistoryStart rs + (HistoryEnd rs - i)"
proof (induction M i rs rule: UpdateChangelistHistory_loop.induct)
  case (1 M i rs)
  then show ?case
    by (subst (asm) (2) UpdateChangelistHistory_loop.simps) (auto split: if_splits)
qed

text \<open>
  A loop that ran to its end found a change list in every slot it visited; the slots it
  emptied on the way cannot have been visited twice.
\<close>

lemma UCH_loop_nonempty:
  "UpdateChangelistHistory_loop M i rs = Inr rs' \<Longrightarrow> i \<le> j \<Longrightarrow> j < HistoryEnd rs \<Longrightarrow>
   0 \<le> j smod M \<and> Changed (ChangeHistory rs (nat (j smod M))) \<noteq> []"
proof (induction M i rs rule: UpdateChangelistHistory_loop.induct)
  case (1 M i rs)
  from "1.prems" have lt: "i < HistoryEnd rs" by simp
  let ?rs1 = "rs\<lparr>ChangeHistory := (ChangeHistory rs)
               (nat (i smod M) := \<lparr>Changed = [], OutPacketIdRange = FPacketIdRange\<rparr>),
             HistoryStart := HistoryStart rs + 1\<rparr>"
  from "1.prems"(1) lt have ok: "\<not> i smod M < 0"
     and ne: "Changed (ChangeHistory rs (nat (i smod M))) \<noteq> []"
     and rec: "UpdateChangelistHistory_loop M (i + 1) ?rs1 = Inr rs'"
    by (subst (asm) UpdateChangelistHistory_loop.simps, simp split: if_splits)+
  show ?case
  proof (cases "j = i")
    case True
    with ok ne show ?thesis by simp
  next
    case False
    with "1.prems" have "i + 1 \<le> j" "j < HistoryEnd ?rs1" by simp_all
    from "1.IH"[OF lt ok _ rec this] ne
    have "0 \<le> j smod M \<and> Changed (ChangeHistory ?rs1 (nat (j smod M))) \<noteq> []" by simp
    then show ?thesis by (auto split: if_splits)
  qed
qed


text \<open>
  Claim C7. Whenever \<^verbatim>\<open>UpdateChangelistHistory\<close> retires change history (it returns),
  \<^verbatim>\<open>HistoryEnd - HistoryStart\<close> was non-negative and below the capacity, every entry in
  \<^verbatim>\<open>[HistoryStart, HistoryEnd)\<close> held a non-empty change list, and the ring is empty
  afterwards. A ring whose cursors are the capacity or more apart (so also one that took
  capacity-plus-one appends with no retirement) is not retired: the call stops with the
  fatal check.
\<close>

theorem ledger_capacity:
  "(UpdateChangelistHistory M rs = Inr rs' \<longrightarrow>
      0 \<le> HistoryEnd rs - HistoryStart rs \<and> HistoryEnd rs - HistoryStart rs < M \<and>
      (\<forall>i. HistoryStart rs \<le> i \<and> i < HistoryEnd rs \<longrightarrow>
           0 \<le> i smod M \<and> Changed (ChangeHistory rs (nat (i smod M))) \<noteq> []) \<and>
      HistoryEnd rs' - HistoryStart rs' = 0) \<and>
   (M \<le> HistoryEnd rs - HistoryStart rs \<longrightarrow> UpdateChangelistHistory M rs = Inl CheckFailed)"
proof (intro conjI impI)
  assume "M \<le> HistoryEnd rs - HistoryStart rs"
  then show "UpdateChangelistHistory M rs = Inl CheckFailed"
    by (simp add: UpdateChangelistHistory_def)
next
  assume ok: "UpdateChangelistHistory M rs = Inr rs'"
  then show c0: "0 \<le> HistoryEnd rs - HistoryStart rs" and "HistoryEnd rs - HistoryStart rs < M"
    by (auto simp: UpdateChangelistHistory_def split: if_splits)
  from ok obtain rs1 where loop: "UpdateChangelistHistory_loop M (HistoryStart rs) rs = Inr rs1"
    and rs': "rs' = rs1\<lparr>HistoryStart := HistoryStart rs1 smod M,
             HistoryEnd := HistoryStart rs1 smod M + (HistoryEnd rs1 - HistoryStart rs1)\<rparr>"
    by (auto simp: UpdateChangelistHistory_def split: if_splits sum.splits)
  from loop show "\<forall>i. HistoryStart rs \<le> i \<and> i < HistoryEnd rs \<longrightarrow>
           0 \<le> i smod M \<and> Changed (ChangeHistory rs (nat (i smod M))) \<noteq> []"
    using UCH_loop_nonempty by blast
  from UCH_loop_HistoryStart[OF loop] UCH_loop_HistoryEnd[OF loop] c0 rs'
  show "HistoryEnd rs' - HistoryStart rs' = 0" by simp
qed

theorem ledger_capacity_witness:
  "\<exists>rs'. UpdateChangelistHistory 4 example_ring = Inr rs' \<and>
     0 \<le> HistoryEnd example_ring - HistoryStart example_ring \<and>
     HistoryEnd example_ring - HistoryStart example_ring < 4 \<and>
     Changed (ChangeHistory example_ring (nat (2 smod 4))) \<noteq> [] \<and>
     HistoryEnd rs' - HistoryStart rs' = 0 \<and>
     4 \<le> HistoryEnd example_overfull_ring - HistoryStart example_overfull_ring \<and>
     UpdateChangelistHistory 4 example_overfull_ring = Inl CheckFailed"
proof -
  have "\<exists>rs'. UpdateChangelistHistory 4 example_ring = Inr rs'"
    by (simp add: UpdateChangelistHistory_def UpdateChangelistHistory_loop.simps
        example_ring_def signed_modulo_int_def)
  then obtain rs' where run: "UpdateChangelistHistory 4 example_ring = Inr rs'" ..
  have over: "(4::int) \<le> HistoryEnd example_overfull_ring - HistoryStart example_overfull_ring"
    by (simp add: example_overfull_ring_def)
  have in_range: "HistoryStart example_ring \<le> 2 \<and> 2 < HistoryEnd example_ring"
    by (simp add: example_ring_def)
  from ledger_capacity [of 4 example_ring rs'] run in_range
  have "0 \<le> HistoryEnd example_ring - HistoryStart example_ring \<and>
     HistoryEnd example_ring - HistoryStart example_ring < 4 \<and>
     Changed (ChangeHistory example_ring (nat (2 smod 4))) \<noteq> [] \<and>
     HistoryEnd rs' - HistoryStart rs' = 0"
    by blast
  moreover from ledger_capacity [of 4 example_overfull_ring] over
  have "UpdateChangelistHistory 4 example_overfull_ring = Inl CheckFailed" by blast
  ultimately show ?thesis using run over by blast
qed

subsection \<open>Retirement follows the merge\<close>















section \<open>The replication pass: what is sent\<close>







section \<open>The handover change list\<close>

lemma Align_ge: "0 < a \<Longrightarrow> v \<le> Align v a"
proof -
  assume a: "0 < a"
  then have lt: "(v + a - 1) mod a < a" by simp
  have "Align v a = (v + a - 1) - (v + a - 1) mod a"
    by (simp add: Align_def minus_mod_eq_div_mult)
  with lt a show ?thesis by arith
qed

lemma length_WriteBytes: "At + length Bytes \<le> length Memory \<Longrightarrow> length (WriteBytes Memory At Bytes) = length Memory"
  by (simp add: WriteBytes_def)

lemma read_written: "At + length Bytes \<le> length Memory \<Longrightarrow>
   take (length Bytes) (drop At (WriteBytes Memory At Bytes)) = Bytes"
  by (simp add: WriteBytes_def)

lemma read_after_write: "At + length Bytes \<le> At2 \<Longrightarrow> At + length Bytes \<le> length Memory \<Longrightarrow>
   drop At2 (WriteBytes Memory At Bytes) = drop At2 Memory"
  by (simp add: WriteBytes_def)

lemma take_WriteBytes: "n \<le> At \<Longrightarrow> At + length Bytes \<le> length Memory \<Longrightarrow> take n (WriteBytes Memory At Bytes) = take n Memory"
  by (simp add: WriteBytes_def)

lemma ShadowOffsets_ge:
  "\<forall>p \<in> set ps. 0 < MinAlignment (Property p) \<Longrightarrow> (p, off') \<in> set (zip ps (ShadowOffsets off ps)) \<Longrightarrow> off \<le> off'"
proof (induction ps arbitrary: off)
  case Nil then show ?case by simp
next
  case (Cons q qs)
  from Cons.prems(1) have al: "off \<le> Align off (MinAlignment (Property q))" by (simp add: Align_ge)
  from Cons.prems(2) show ?case
  proof (simp, elim disjE)
    assume "p = q \<and> off' = Align off (MinAlignment (Property q))"
    with al show ?thesis by simp
  next
    assume "(p, off') \<in> set (zip qs (ShadowOffsets (Align off (MinAlignment (Property q)) + ElementSize (Property q)) qs))"
    from Cons.IH[OF _ this] Cons.prems(1) al show ?thesis by simp
  qed
qed

lemma ReadBytes_Inr: "ReadBytes M a n = Inr bs \<longleftrightarrow> (a + n \<le> length M \<and> bs = take n (drop a M))"
  by (auto simp: ReadBytes_def)

lemma GetHandoverChangeList_loop_correct:
  "GetHandoverChangeList_loop bC Obj ps off Sh Acc = Inr (Ch, Sh') \<Longrightarrow>
   \<forall>p \<in> set ps. 0 < MinAlignment (Property p) \<Longrightarrow>
   Ch = Acc @ map (Handle \<circ> fst)
            (filter (\<lambda>Slot. bC \<or> StoredValue Sh Slot \<noteq> CurrentValue Obj (fst Slot)) (zip ps (ShadowOffsets off ps)))
   \<and> length Sh' = length Sh
   \<and> take off Sh' = take off Sh
   \<and> (\<forall>Slot \<in> set (zip ps (ShadowOffsets off ps)). StoredValue Sh' Slot = CurrentValue Obj (fst Slot))"
proof (induction ps arbitrary: off Sh Acc)
  case Nil
  then show ?case by simp
next
  case (Cons p ps)
  let ?o = "Align off (MinAlignment (Property p))"
  let ?n = "ElementSize (Property p)"
  let ?Data = "take ?n (drop (Offset p) Obj)"
  from Cons.prems(2) have al: "off \<le> ?o" by (simp add: Align_ge)
  from Cons.prems(2) have pos: "\<forall>p \<in> set ps. 0 < MinAlignment (Property p)" by simp
  from Cons.prems(1) have bObj: "Offset p + ?n \<le> length Obj" and bSh: "?o + ?n \<le> length Sh"
    by (auto simp: ReadBytes_def split: if_splits sum.splits)
  have lenData: "length ?Data = ?n" using bObj by simp
  define Sh1 where "Sh1 = (if bC \<or> take ?n (drop ?o Sh) \<noteq> ?Data then WriteBytes Sh ?o ?Data else Sh)"
  define Acc1 where "Acc1 = (if bC \<or> take ?n (drop ?o Sh) \<noteq> ?Data then Acc @ [Handle p] else Acc)"
  from Cons.prems(1) bObj bSh have rec: "GetHandoverChangeList_loop bC Obj ps (?o + ?n) Sh1 Acc1 = Inr (Ch, Sh')"
    by (auto simp: ReadBytes_def Sh1_def Acc1_def split: if_splits)
  note IH = Cons.IH[OF rec pos]
  have len1: "length Sh1 = length Sh" using bSh lenData by (simp add: Sh1_def length_WriteBytes)
  have pre1: "take ?o Sh1 = take ?o Sh" using bSh lenData by (simp add: Sh1_def take_WriteBytes)
  have after1: "\<And>k. ?o + ?n \<le> k \<Longrightarrow> drop k Sh1 = drop k Sh"
    using bSh lenData by (simp add: Sh1_def read_after_write)
  have here1: "take ?n (drop ?o Sh1) = ?Data"
    using bSh lenData read_written[of ?o ?Data Sh] by (auto simp: Sh1_def)
  have later_same: "\<And>Slot. Slot \<in> set (zip ps (ShadowOffsets (?o + ?n) ps)) \<Longrightarrow> StoredValue Sh1 Slot = StoredValue Sh Slot"
  proof -
    fix Slot assume "Slot \<in> set (zip ps (ShadowOffsets (?o + ?n) ps))"
    then have "?o + ?n \<le> snd Slot" using ShadowOffsets_ge[OF pos, of "fst Slot" "snd Slot" "?o + ?n"] by simp
    then show "StoredValue Sh1 Slot = StoredValue Sh Slot" by (simp add: StoredValue_def after1)
  qed
  have filt: "filter (\<lambda>Slot. bC \<or> StoredValue Sh1 Slot \<noteq> CurrentValue Obj (fst Slot)) (zip ps (ShadowOffsets (?o + ?n) ps))
            = filter (\<lambda>Slot. bC \<or> StoredValue Sh Slot \<noteq> CurrentValue Obj (fst Slot)) (zip ps (ShadowOffsets (?o + ?n) ps))"
    by (rule filter_cong) (auto simp: later_same)
  have c1: "Ch = Acc @ map (Handle \<circ> fst)
            (filter (\<lambda>Slot. bC \<or> StoredValue Sh Slot \<noteq> CurrentValue Obj (fst Slot)) (zip (p # ps) (ShadowOffsets off (p # ps))))"
    using IH filt by (auto simp: Acc1_def StoredValue_def CurrentValue_def)
  have c2: "length Sh' = length Sh" using IH len1 by simp
  have t: "take (?o + ?n) Sh' = take (?o + ?n) Sh1" using IH by simp
  have c3: "take off Sh' = take off Sh"
  proof -
    have "take off Sh' = take off (take (?o + ?n) Sh')" using al by (simp add: min_def)
    also have "\<dots> = take off (take (?o + ?n) Sh1)" using t by simp
    also have "\<dots> = take off (take ?o Sh1)" using al by (simp add: min_def)
    also have "\<dots> = take off Sh" using pre1 al by (simp add: min_def)
    finally show ?thesis .
  qed
  have here': "take ?n (drop ?o Sh') = ?Data"
  proof -
    have "take ?n (drop ?o Sh') = drop ?o (take (?o + ?n) Sh')" by (simp add: drop_take)
    also have "\<dots> = drop ?o (take (?o + ?n) Sh1)" using t by simp
    also have "\<dots> = take ?n (drop ?o Sh1)" by (simp add: drop_take)
    finally show ?thesis using here1 by simp
  qed
  have c4: "\<forall>Slot \<in> set (zip (p # ps) (ShadowOffsets off (p # ps))). StoredValue Sh' Slot = CurrentValue Obj (fst Slot)"
    using IH here' by (auto simp: StoredValue_def CurrentValue_def)
  from c1 c2 c3 c4 show ?case by blast
qed


lemma ShadowEnd_ge:
  "\<forall>p \<in> set ps. 0 < MinAlignment (Property p) \<Longrightarrow> off \<le> ShadowEnd off ps"
proof (induction ps arbitrary: off)
  case Nil then show ?case by simp
next
  case (Cons q qs)
  from Cons.prems have "off \<le> Align off (MinAlignment (Property q))" by (simp add: Align_ge)
  moreover from Cons.prems Cons.IH[of "Align off (MinAlignment (Property q)) + ElementSize (Property q)"]
  have "Align off (MinAlignment (Property q)) + ElementSize (Property q)
        \<le> ShadowEnd (Align off (MinAlignment (Property q)) + ElementSize (Property q)) qs" by simp
  ultimately show ?case by simp
qed

lemma GetHandoverChangeList_loop_returns:
  "\<forall>p \<in> set ps. 0 < MinAlignment (Property p) \<and> Offset p + ElementSize (Property p) \<le> length Obj \<Longrightarrow>
   ShadowEnd off ps \<le> length Sh \<Longrightarrow>
   \<exists>R. GetHandoverChangeList_loop bC Obj ps off Sh Acc = Inr R"
proof (induction ps arbitrary: off Sh Acc)
  case Nil then show ?case by simp
next
  case (Cons p ps)
  let ?o = "Align off (MinAlignment (Property p))"
  let ?n = "ElementSize (Property p)"
  let ?Data = "take ?n (drop (Offset p) Obj)"
  from Cons.prems(1) have pos: "\<forall>p \<in> set ps. 0 < MinAlignment (Property p)" by simp
  from Cons.prems(1) have bObj: "Offset p + ?n \<le> length Obj" by simp
  from ShadowEnd_ge[OF pos, of "?o + ?n"] Cons.prems(2) have bSh: "?o + ?n \<le> length Sh" by simp
  have lenData: "length ?Data = ?n" using bObj by simp
  have lw: "length (WriteBytes Sh ?o ?Data) = length Sh" using bSh lenData by (simp add: length_WriteBytes)
  from Cons.prems have rest: "\<forall>p \<in> set ps. 0 < MinAlignment (Property p) \<and> Offset p + ElementSize (Property p) \<le> length Obj"
    and e: "ShadowEnd (?o + ?n) ps \<le> length Sh" by simp_all
  show ?case
  proof (cases "bC \<or> take ?n (drop ?o Sh) \<noteq> ?Data")
    case True
    from Cons.IH[OF rest, of "?o + ?n" "WriteBytes Sh ?o ?Data" "Acc @ [Handle p]"] e lw
    obtain R where "GetHandoverChangeList_loop bC Obj ps (?o + ?n) (WriteBytes Sh ?o ?Data)
        (Acc @ [Handle p]) = Inr R" by auto
    with True bObj bSh show ?thesis by (auto simp: ReadBytes_def)
  next
    case False
    from Cons.IH[OF rest, of "?o + ?n" Sh Acc] e
    obtain R where "GetHandoverChangeList_loop bC Obj ps (?o + ?n) Sh Acc = Inr R" by auto
    with False bObj bSh show ?thesis by (auto simp: ReadBytes_def)
  qed
qed

lemma length_ShadowOffsets: "length (ShadowOffsets off ps) = length ps"
  by (induction ps arbitrary: off) simp_all

lemma map_fst_zip_ShadowOffsets: "map (Handle \<circ> fst) (zip ps (ShadowOffsets off ps)) = map Handle ps"
  by (induction ps arbitrary: off) simp_all

text \<open>
  Claim C5. For a class whose handover properties have a positive alignment and lie
  inside the object, and a shadow buffer long enough for them,
  \<^verbatim>\<open>GetHandoverChangeList\<close> returns. When the entity is not being created, it returns
  the handles of exactly the properties whose stored value differs from the current
  value, in the order of the class; when it is being created, the handle of every
  handover property. In both cases the shadow buffer afterwards holds the current value
  of every handover property.
\<close>

theorem handover_change_list:
  assumes "\<forall>p \<in> set (HandoverProperties Info).
             0 < MinAlignment (Property p) \<and> Offset p + ElementSize (Property p) \<le> length Object"
      and "ShadowEnd 0 (HandoverProperties Info) \<le> length ShadowData"
  shows "\<exists>HandoverChanged ShadowData'.
      GetHandoverChangeList bCreating (Some Info) ShadowData Object = Inr (HandoverChanged, ShadowData') \<and>
      HandoverChanged = map (Handle \<circ> fst)
        (filter (\<lambda>Slot. bCreating \<or> StoredValue ShadowData Slot \<noteq> CurrentValue Object (fst Slot))
           (zip (HandoverProperties Info) (ShadowOffsets 0 (HandoverProperties Info)))) \<and>
      (bCreating \<longrightarrow> HandoverChanged = map Handle (HandoverProperties Info)) \<and>
      (\<forall>Slot \<in> set (zip (HandoverProperties Info) (ShadowOffsets 0 (HandoverProperties Info))).
         StoredValue ShadowData' Slot = CurrentValue Object (fst Slot))"
proof -
  let ?ps = "HandoverProperties Info"
  from GetHandoverChangeList_loop_returns[OF assms, of bCreating "[]"]
  obtain HandoverChanged ShadowData' where
    run: "GetHandoverChangeList_loop bCreating Object ?ps 0 ShadowData [] = Inr (HandoverChanged, ShadowData')"
    by fastforce
  from assms(1) have pos: "\<forall>p \<in> set ?ps. 0 < MinAlignment (Property p)" by simp
  note c = GetHandoverChangeList_loop_correct[OF run pos]
  from c have h: "HandoverChanged = map (Handle \<circ> fst)
        (filter (\<lambda>Slot. bCreating \<or> StoredValue ShadowData Slot \<noteq> CurrentValue Object (fst Slot))
           (zip ?ps (ShadowOffsets 0 ?ps)))" by simp
  have all: "bCreating \<longrightarrow> HandoverChanged = map Handle ?ps"
  proof
    assume bCreating
    with h have "HandoverChanged = map (Handle \<circ> fst) (zip ?ps (ShadowOffsets 0 ?ps))" by simp
    then show "HandoverChanged = map Handle ?ps" by (simp only: map_fst_zip_ShadowOffsets)
  qed
  from run have "GetHandoverChangeList bCreating (Some Info) ShadowData Object = Inr (HandoverChanged, ShadowData')"
    by (simp add: GetHandoverChangeList_def)
  with h all c show ?thesis by blast
qed

theorem handover_change_list_witness:
  "GetHandoverChangeList False (Some example_handover_info) example_shadow_data example_object_memory
       = Inr ([2], [1, 2, 0, 0, 5, 6, 7, 8]) \<and>
   StoredValue [1, 2, 0, 0, 5, 6, 7, 8] (HandoverProperties example_handover_info ! 1, 4) = [5, 6, 7, 8] \<and>
   GetHandoverChangeList True (Some example_handover_info) example_shadow_data example_object_memory
       = Inr ([1, 2], [1, 2, 0, 0, 5, 6, 7, 8])"
proof -
  have b: "\<forall>p \<in> set (HandoverProperties example_handover_info).
             0 < MinAlignment (Property p) \<and> Offset p + ElementSize (Property p) \<le> length example_object_memory"
    by (simp add: example_handover_info_def example_object_memory_def)
  have e: "ShadowEnd 0 (HandoverProperties example_handover_info) \<le> length example_shadow_data"
    by (simp add: example_handover_info_def example_shadow_data_def Align_def)
  have v1: "GetHandoverChangeList False (Some example_handover_info) example_shadow_data example_object_memory
       = Inr ([2], [1, 2, 0, 0, 5, 6, 7, 8])"
    by (simp add: GetHandoverChangeList_def ReadBytes_def WriteBytes_def Align_def
         example_handover_info_def example_shadow_data_def example_object_memory_def)
  have v2: "GetHandoverChangeList True (Some example_handover_info) example_shadow_data example_object_memory
       = Inr ([1, 2], [1, 2, 0, 0, 5, 6, 7, 8])"
    by (simp add: GetHandoverChangeList_def ReadBytes_def WriteBytes_def Align_def
         example_handover_info_def example_shadow_data_def example_object_memory_def)
  have slot: "(HandoverProperties example_handover_info ! 1, 4)
      \<in> set (zip (HandoverProperties example_handover_info) (ShadowOffsets 0 (HandoverProperties example_handover_info)))"
    by (simp add: example_handover_info_def Align_def)
  from handover_change_list[OF b e, of False] v1 slot
  have "StoredValue [1, 2, 0, 0, 5, 6, 7, 8] (HandoverProperties example_handover_info ! 1, 4)
        = CurrentValue example_object_memory (HandoverProperties example_handover_info ! 1)"
    by fastforce
  then have "StoredValue [1, 2, 0, 0, 5, 6, 7, 8] (HandoverProperties example_handover_info ! 1, 4) = [5, 6, 7, 8]"
    by (simp add: CurrentValue_def example_handover_info_def example_object_memory_def)
  with v1 v2 show ?thesis by blast
qed


section \<open>The initial change state\<close>

lemma loop_eq_from:
  "length Cs \<le> 65535 \<Longrightarrow> i \<le> length Cs \<Longrightarrow> n = length Cs - i \<Longrightarrow>
   CreateInitialRepChangeState_loop Cs (of_nat i) d Acc =
   Some (case InitialRepChanged_from (length Cs) i d (drop i Cs) of
           Inl e \<Rightarrow> Inl e | Inr Out \<Rightarrow> Inr (Acc @ Out))"
proof (induction n arbitrary: i d Acc)
  case 0
  then have "i = length Cs" by simp
  moreover from 0 have "uint (of_nat (length Cs) :: 16 word) = int (length Cs)"
    by (simp add: unsigned_of_nat take_bit_nat_eq_self)
  ultimately show ?case
    by (subst CreateInitialRepChangeState_loop.simps) simp
next
  case (Suc n)
  then have lt: "i < length Cs" and n: "n = length Cs - (i + 1)" and le: "i + 1 \<le> length Cs" by simp_all
  from Suc.prems lt have ui: "uint (of_nat i :: 16 word) = int i" and un: "unat (of_nat i :: 16 word) = i"
    by (simp_all add: unsigned_of_nat take_bit_nat_eq_self)
  have nx: "(of_nat i :: 16 word) + 1 = of_nat (i + 1)" by simp
  have dr: "drop i Cs = Cs ! i # drop (i + 1) Cs" using lt by (simp add: Cons_nth_drop_Suc)
  have IH: "\<And>d Acc. CreateInitialRepChangeState_loop Cs (1 + word_of_nat i) d Acc =
      Some (case InitialRepChanged_from (length Cs) (Suc i) d (drop (Suc i) Cs) of
           Inl e \<Rightarrow> Inl e | Inr Out \<Rightarrow> Inr (Acc @ Out))"
    using Suc.IH[OF Suc.prems(1) le n] by (simp add: add.commute)
  show ?case
    apply (subst CreateInitialRepChangeState_loop.simps)
    apply (simp only: ui un nx dr)
    apply (cases "Type (Cs ! i)")
    using lt apply (simp_all add: IH split: sum.splits)
    done
qed


lemma DepthBefore_Suc:
  "i < length Cs \<Longrightarrow> DepthBefore Cs (Suc i) =
     DepthBefore Cs i + (case Type (Cs ! i) of REPCMD_DynamicArray \<Rightarrow> 1 | REPCMD_Return \<Rightarrow> -1
                         | REPCMD_Property \<Rightarrow> 0)"
  by (cases "Type (Cs ! i)") (simp_all add: DepthBefore_def take_Suc_conv_app_nth)

lemma from_concat:
  "n = length Cs - i \<Longrightarrow> i \<le> length Cs \<Longrightarrow>
   InitialRepChanged_from (length Cs) i (DepthBefore Cs i) (drop i Cs) = Inr Out \<Longrightarrow>
   Out = concat (map (InitialHandles Cs) [i..<length Cs])"
proof (induction n arbitrary: i Out)
  case 0
  then show ?case by simp
next
  case (Suc n)
  then have lt: "i < length Cs" and n: "n = length Cs - Suc i" and le: "Suc i \<le> length Cs" by simp_all
  have dr: "drop i Cs = Cs ! i # drop (Suc i) Cs" using lt by (simp add: Cons_nth_drop_Suc)
  have up: "[i..<length Cs] = i # [Suc i..<length Cs]" using lt by (simp add: upt_rec)
  from Suc.prems(3) obtain Out1 where
    rec: "InitialRepChanged_from (length Cs) (Suc i) (DepthBefore Cs (Suc i)) (drop (Suc i) Cs) = Inr Out1"
    and out: "Out = InitialHandles Cs i @ Out1"
    by (cases "Type (Cs ! i)")
       (auto simp: dr DepthBefore_Suc[OF lt] InitialHandles_def RootArray_def CountMarker_def
             split: sum.splits if_splits)
  from Suc.IH[OF n le rec] out up show ?case by simp
qed

lemma DepthBefore_0: "DepthBefore Cs 0 = 0"
  by (simp add: DepthBefore_def)

lemma interior_blocks:
  "\<forall>j. i < j \<and> j < e \<longrightarrow> \<not> RootArray Cs j \<Longrightarrow>
   concat (map (InitialHandles Cs) [Suc i..<e]) = map (\<lambda>j. RelativeHandle (Cs ! j)) [Suc i..<e]"
  by (induction e) (auto simp: InitialHandles_def)

lemma skip_interior:
  assumes len: "length Cs \<le> 65535"
      and out: "Out = concat (map (InitialHandles Cs) [0..<length Cs])"
      and i: "i < length Cs" and root: "RootArray Cs i"
      and e1: "i + 2 \<le> unat (EndCmd (Cs ! i))" and e2: "unat (EndCmd (Cs ! i)) \<le> length Cs"
      and interior: "\<forall>j. i < j \<and> j < unat (EndCmd (Cs ! i)) - 1 \<longrightarrow> \<not> RootArray Cs j"
  shows "\<exists>Before Interior After.
           Out = Before @ [RelativeHandle (Cs ! i), CountMarker Cs i] @ Interior @
                 RelativeHandle (Cs ! (unat (EndCmd (Cs ! i)) - 1)) # After \<and>
           Interior = map (\<lambda>j. RelativeHandle (Cs ! j)) [Suc i..<unat (EndCmd (Cs ! i)) - 1] \<and>
           length Interior = unat (CountMarker Cs i)"
proof -
  let ?e = "unat (EndCmd (Cs ! i))"
  have split: "[0..<length Cs] = [0..<i] @ [i] @ [Suc i..<?e - 1] @ [?e - 1] @ [?e..<length Cs]"
  proof -
    have "[0..<length Cs] = [0..<i] @ [i..<length Cs]" using i by (metis le_add1 less_imp_le_nat upt_add_eq_append le_add_diff_inverse plus_nat.add_0)
    also have "[i..<length Cs] = [i] @ [Suc i..<length Cs]" using i by (simp add: upt_rec)
    also have "[Suc i..<length Cs] = [Suc i..<?e - 1] @ [?e - 1..<length Cs]"
      using e1 e2 upt_add_eq_append[of "Suc i" "?e - 1" "length Cs - (?e - 1)"] by simp
    also have "[?e - 1..<length Cs] = [?e - 1] @ [?e..<length Cs]" using e1 e2 by (simp add: upt_rec)
    finally show ?thesis by simp
  qed
  have m: "unat (CountMarker Cs i) = ?e - 1 - Suc i"
  proof -
    have "uint (EndCmd (Cs ! i)) - int i - 2 = int (?e - 1 - Suc i)" using e1 by simp
    then have "CountMarker Cs i = of_nat (?e - 1 - Suc i)" by (simp add: CountMarker_def)
    moreover have "?e - 1 - Suc i < 65536" using e2 len by simp
    ultimately show ?thesis by (simp add: unsigned_of_nat take_bit_nat_eq_self)
  qed
  from interior have ib: "concat (map (InitialHandles Cs) [Suc i..<?e - 1])
        = map (\<lambda>j. RelativeHandle (Cs ! j)) [Suc i..<?e - 1]"
    by (rule interior_blocks)
  have "Out = concat (map (InitialHandles Cs) [0..<i]) @ [RelativeHandle (Cs ! i), CountMarker Cs i]
        @ map (\<lambda>j. RelativeHandle (Cs ! j)) [Suc i..<?e - 1]
        @ RelativeHandle (Cs ! (?e - 1)) # (tl (InitialHandles Cs (?e - 1)) @ concat (map (InitialHandles Cs) [?e..<length Cs]))"
    using ib unfolding out by (subst split) (simp add: root InitialHandles_def)
  with m show ?thesis by auto
qed

lemma nested_value: "CreateInitialRepChangeState nested_layout = Some (Inr [1, 4, 1, 1, 2, 0, 0, 0])"
  by (simp add: CreateInitialRepChangeState_def CreateInitialRepChangeState_loop.simps nested_layout_def)


text \<open>
  Claim C6 as it is stated does not hold: in the layout of an array of arrays the handle
  of the nested array is followed by the handle of its first member, not by a count
  marker.
\<close>

theorem nested_array_has_no_marker:
  "CreateInitialRepChangeState nested_layout \<noteq>
     Some (Inr (concat (map (ClaimedInitialHandles (Cmds nested_layout))
                          [0..<length (Cmds nested_layout)])))"
  by (simp add: nested_value) (simp add: nested_layout_def ClaimedInitialHandles_def CountMarker_def upt_rec)

text \<open>
  Claim C6, amended. On a layout of at most 65535 commands
  \<^verbatim>\<open>CreateInitialRepChangeState\<close> returns, and a change list it returns is made of one
  block per command, in order: the command's handle, followed immediately by one count
  marker \<^verbatim>\<open>(EndCmd - CmdIdx) - 2\<close> when the command is a dynamic array at the root
  level, and by nothing otherwise (so not for an array nested in an array). Where
  \<^verbatim>\<open>EndCmd\<close> of a root-level array is one past its return command and no root-level
  array lies between, the marker is the number of elements between it and the handle of
  that return command: a reader that skips as many elements as the marker says is at the
  end of the array.
\<close>

theorem initial_change_state_markers:
  assumes "length (Cmds RepLayout) \<le> 65535"
  shows "(\<exists>Result. CreateInitialRepChangeState RepLayout = Some Result) \<and>
         (\<forall>Out. CreateInitialRepChangeState RepLayout = Some (Inr Out) \<longrightarrow>
            Out = concat (map (InitialHandles (Cmds RepLayout)) [0..<length (Cmds RepLayout)]) \<and>
            (\<forall>i. i < length (Cmds RepLayout) \<and> RootArray (Cmds RepLayout) i \<and>
                 i + 2 \<le> unat (EndCmd (Cmds RepLayout ! i)) \<and>
                 unat (EndCmd (Cmds RepLayout ! i)) \<le> length (Cmds RepLayout) \<and>
                 (\<forall>j. i < j \<and> j < unat (EndCmd (Cmds RepLayout ! i)) - 1
                      \<longrightarrow> \<not> RootArray (Cmds RepLayout) j) \<longrightarrow>
               (\<exists>Before Interior After.
                  Out = Before @ [RelativeHandle (Cmds RepLayout ! i), CountMarker (Cmds RepLayout) i]
                        @ Interior
                        @ RelativeHandle (Cmds RepLayout ! (unat (EndCmd (Cmds RepLayout ! i)) - 1)) # After \<and>
                  Interior = map (\<lambda>j. RelativeHandle (Cmds RepLayout ! j))
                               [Suc i..<unat (EndCmd (Cmds RepLayout ! i)) - 1] \<and>
                  length Interior = unat (CountMarker (Cmds RepLayout) i))))"
proof -
  from loop_eq_from[OF assms, of 0 "length (Cmds RepLayout)" 0 "[]"]
  have eq: "CreateInitialRepChangeState RepLayout =
      Some (case InitialRepChanged_from (length (Cmds RepLayout)) 0 0 (Cmds RepLayout) of
              Inl e \<Rightarrow> Inl e | Inr Out \<Rightarrow> Inr Out)"
    by (simp add: CreateInitialRepChangeState_def split: sum.splits)
  have blocks: "Out = concat (map (InitialHandles (Cmds RepLayout)) [0..<length (Cmds RepLayout)])"
    if "CreateInitialRepChangeState RepLayout = Some (Inr Out)" for Out
  proof -
    from that eq have "InitialRepChanged_from (length (Cmds RepLayout)) 0 0 (Cmds RepLayout) = Inr Out"
      by (simp split: sum.splits)
    then show ?thesis
      using from_concat[of "length (Cmds RepLayout)" "Cmds RepLayout" 0 Out]
      by (simp add: DepthBefore_0)
  qed
  from eq have "\<exists>Result. CreateInitialRepChangeState RepLayout = Some Result" by blast
  moreover have "\<forall>Out. CreateInitialRepChangeState RepLayout = Some (Inr Out) \<longrightarrow>
            Out = concat (map (InitialHandles (Cmds RepLayout)) [0..<length (Cmds RepLayout)]) \<and>
            (\<forall>i. i < length (Cmds RepLayout) \<and> RootArray (Cmds RepLayout) i \<and>
                 i + 2 \<le> unat (EndCmd (Cmds RepLayout ! i)) \<and>
                 unat (EndCmd (Cmds RepLayout ! i)) \<le> length (Cmds RepLayout) \<and>
                 (\<forall>j. i < j \<and> j < unat (EndCmd (Cmds RepLayout ! i)) - 1
                      \<longrightarrow> \<not> RootArray (Cmds RepLayout) j) \<longrightarrow>
               (\<exists>Before Interior After.
                  Out = Before @ [RelativeHandle (Cmds RepLayout ! i), CountMarker (Cmds RepLayout) i]
                        @ Interior
                        @ RelativeHandle (Cmds RepLayout ! (unat (EndCmd (Cmds RepLayout ! i)) - 1)) # After \<and>
                  Interior = map (\<lambda>j. RelativeHandle (Cmds RepLayout ! j))
                               [Suc i..<unat (EndCmd (Cmds RepLayout ! i)) - 1] \<and>
                  length Interior = unat (CountMarker (Cmds RepLayout) i)))"
    using blocks skip_interior[OF assms] by blast
  ultimately show ?thesis by blast
qed

theorem initial_change_state_markers_witness:
  "length (Cmds nested_layout) \<le> 65535 \<and>
   CreateInitialRepChangeState nested_layout = Some (Inr [1, 4, 1, 1, 2, 0, 0, 0]) \<and>
   concat (map (InitialHandles (Cmds nested_layout)) [0..<length (Cmds nested_layout)])
     = [1, 4, 1, 1, 2, 0, 0, 0] \<and>
   RootArray (Cmds nested_layout) 0 \<and> \<not> RootArray (Cmds nested_layout) 1 \<and>
   CountMarker (Cmds nested_layout) 0 = 4"
proof -
  have l: "length (Cmds nested_layout) \<le> 65535" by (simp add: nested_layout_def)
  from initial_change_state_markers[OF l] nested_value
  have "[1, 4, 1, 1, 2, 0, 0, 0]
      = concat (map (InitialHandles (Cmds nested_layout)) [0..<length (Cmds nested_layout)])"
    by blast
  moreover have "RootArray (Cmds nested_layout) 0 \<and> \<not> RootArray (Cmds nested_layout) 1 \<and>
      CountMarker (Cmds nested_layout) 0 = 4"
    by (simp add: RootArray_def DepthBefore_def CountMarker_def nested_layout_def)
  ultimately show ?thesis using l nested_value by simp
qed


section \<open>Remote procedure calls\<close>

text \<open>
  Claim C10. When the typebinding manager has no class info for the class of the target
  object, \<^verbatim>\<open>SendRPC\<close> returns at once: the sender is as it was (nothing is added to
  \<^verbatim>\<open>OutgoingRPCs\<close>), and nothing goes out, neither a command request nor a component
  update, and the parameters are not destroyed, whoever owns them.
\<close>

theorem SendRPC_without_class_info:
  "FindClassInfoByClass W (ClassOf W TargetObject') = None \<Longrightarrow>
   SendRPC W S TargetObject' Function' Parameters' bOwnParameters = Inr (S, [])"
  by (simp add: SendRPC_def)

theorem SendRPC_without_class_info_witness:
  "FindClassInfoByClass example_sender_world (ClassOf example_sender_world 5) = None \<and>
   SendRPC example_sender_world example_sender 5 3 4 True = Inr (example_sender, [])"
proof -
  have n: "FindClassInfoByClass example_sender_world (ClassOf example_sender_world 5) = None"
    by (simp add: example_sender_world_def)
  from SendRPC_without_class_info[OF n] n show ?thesis by simp
qed


section \<open>The sender: queueing, resetting and resolving pending updates\<close>

lemma Pending_Nil: "Pending [] key = None"
  by (simp add: Pending_def split: prod.splits)

lemma Pending_update:
  "Pending (AList.update k (AList.update h p (case map_of P k of None \<Rightarrow> [] | Some m \<Rightarrow> m)) P)
   = (Pending P)((k, h) \<mapsto> p)"
  by (auto simp: Pending_def fun_eq_iff update_conv' split: option.splits)

lemma delete_Nil_map_of: "AList.delete h m = [] \<Longrightarrow> h' \<noteq> h \<Longrightarrow> map_of m h' = None"
  using delete_conv'[of h m] by (auto simp: fun_eq_iff split: if_splits)

lemma Pending_RemoveHandle:
  "map_of P k = Some m \<Longrightarrow> Pending (RemoveHandle k h m P) = (Pending P)((k, h) := None)"
  by (auto simp: RemoveHandle_def Pending_def update_conv' delete_conv' fun_eq_iff delete_Nil_map_of
           split: option.splits)

lemma wfC_Pending_ne: "wfC cm \<Longrightarrow> \<exists>key p. Pending cm key = Some p"
proof -
  assume w: "wfC cm"
  then obtain k m rest where cm: "cm = (k, m) # rest" unfolding wfC_def by (cases cm) auto
  with w have "m \<noteq> []" unfolding wfC_def by auto
  then obtain h p r where m: "m = (h, p) # r" by (cases m) auto
  have "Pending cm (k, h) = Some p" by (simp add: Pending_def cm m)
  thus ?thesis by blast
qed

lemma set_delete_subset: "set (AList.delete k al) \<subseteq> set al"
  by (auto simp: AList.delete_eq)

lemma set_update_subset: "set (AList.update k v al) \<subseteq> insert (k, v) (set al)"
  by (induction al) auto

lemma wfC_RemoveHandle:
  assumes "wfC cm" "map_of cm k = Some m" "RemoveHandle k h m cm \<noteq> []"
  shows "wfC (RemoveHandle k h m cm)"
proof -
  have m: "(k, m) \<in> set cm" using assms(2) by (rule map_of_SomeD)
  have d: "distinct (map fst (AList.delete h m))" using assms(1) m
    by (auto simp: wfC_def intro: distinct_delete)
  show ?thesis
    using assms(1,3) d set_delete_subset[of k cm] set_update_subset[of k "AList.delete h m" cm]
    by (auto simp: wfC_def RemoveHandle_def distinct_update distinct_delete split: if_splits)
qed

lemma wfC_update:
  assumes "cm = [] \<or> wfC cm"
  shows "wfC (AList.update k (AList.update h p (case map_of cm k of None \<Rightarrow> [] | Some m \<Rightarrow> m)) cm)"
proof -
  let ?m = "case map_of cm k of None \<Rightarrow> [] | Some m \<Rightarrow> m"
  have d: "distinct (map fst ?m)" using assms
    by (auto simp: wfC_def split: option.splits dest!: map_of_SomeD)
  have "\<forall>(k', m') \<in> set (AList.update k (AList.update h p ?m) cm). m' \<noteq> [] \<and> distinct (map fst m')"
  proof (clarify)
    fix k' m' assume "(k', m') \<in> set (AList.update k (AList.update h p ?m) cm)"
    with set_update_subset[of k "AList.update h p ?m" cm]
    have "(k', m') = (k, AList.update h p ?m) \<or> (k', m') \<in> set cm" by blast
    thus "m' \<noteq> [] \<and> distinct (map fst m')"
      using assms distinct_update[OF d, of h p] by (auto simp: wfC_def)
  qed
  moreover have "distinct (map fst cm)" using assms by (auto simp: wfC_def)
  ultimately show ?thesis
    by (simp add: wfC_def distinct_update)
qed

lemma wfO_update: "wfO Ob \<Longrightarrow> wfC cm \<Longrightarrow> wfO (AList.update T cm Ob)"
  by (auto simp: wfO_def update_conv')

lemma wfO_delete: "wfO Ob \<Longrightarrow> wfO (AList.delete T Ob)"
  by (auto simp: wfO_def delete_conv')

lemma Under_update: "Under (AList.update T cm Ob) = (Under Ob)(T := Pending cm)"
  by (auto simp: Under_def fun_eq_iff update_conv')

lemma Under_delete: "Under (AList.delete T Ob) = (Under Ob)(T := Map.empty)"
  by (auto simp: Under_def fun_eq_iff delete_conv')

text \<open>The loop of QueueOutgoingUpdate\<close>

lemma Queue_loop_effect:
  "QueueOutgoingUpdate_loop k h p ts Ob = Inr Ob' \<Longrightarrow> wfO Ob \<Longrightarrow>
   wfO Ob' \<and> distinct ts \<and>
   (\<forall>T \<in> set ts. Under Ob T (k, h) = None) \<and>
   (\<forall>T. Under Ob' T = (if T \<in> set ts then (Under Ob T)((k, h) \<mapsto> p) else Under Ob T)) \<and>
   (\<forall>T. T \<notin> set ts \<longrightarrow> map_of Ob' T = map_of Ob T)"
proof (induction ts arbitrary: Ob)
  case Nil
  then show ?case by simp
next
  case (Cons T ts)
  let ?cm = "case map_of Ob T of None \<Rightarrow> [] | Some cm \<Rightarrow> cm"
  let ?Ob1 = "AList.update T (AList.update k (AList.update h p
                 (case map_of ?cm k of None \<Rightarrow> [] | Some m \<Rightarrow> m)) ?cm) Ob"
  from Cons.prems(1) have free: "map_of (case map_of ?cm k of None \<Rightarrow> [] | Some m \<Rightarrow> m) h = None"
    and run: "QueueOutgoingUpdate_loop k h p ts ?Ob1 = Inr Ob'"
    by (auto split: if_splits)
  have cm: "?cm = [] \<or> wfC ?cm" using Cons.prems(2) by (auto simp: wfO_def split: option.splits)
  have w1: "wfO ?Ob1" by (rule wfO_update[OF Cons.prems(2) wfC_update[OF cm]])
  have U0: "Under Ob T (k, h) = None"
    using free by (auto simp: Under_def Pending_def split: option.splits)
  have U1: "Under ?Ob1 = (Under Ob)(T := (Under Ob T)((k, h) \<mapsto> p))"
    unfolding Under_update Pending_update
    by (auto simp: Under_def fun_eq_iff Pending_Nil split: option.splits)
  have M1: "\<And>T'. T' \<noteq> T \<Longrightarrow> map_of ?Ob1 T' = map_of Ob T'" by (simp add: update_conv')
  note IH = Cons.IH[OF run w1, unfolded U1]
  have Tn: "T \<notin> set ts"
  proof
    assume "T \<in> set ts"
    with IH have "((Under Ob)(T := (Under Ob T)((k, h) \<mapsto> p))) T (k, h) = None" by blast
    thus False by simp
  qed
  have a: "wfO Ob'" "distinct (T # ts)" using IH Tn by auto
  have b: "\<forall>T' \<in> set (T # ts). Under Ob T' (k, h) = None"
  proof
    fix T' assume T': "T' \<in> set (T # ts)"
    show "Under Ob T' (k, h) = None"
    proof (cases "T' = T")
      case True thus ?thesis using U0 by simp
    next
      case False
      with T' have "T' \<in> set ts" by simp
      with IH have "((Under Ob)(T := (Under Ob T)((k, h) \<mapsto> p))) T' (k, h) = None" by blast
      with False show ?thesis by simp
    qed
  qed
  have c: "\<forall>T'. Under Ob' T' = (if T' \<in> set (T # ts) then (Under Ob T')((k, h) \<mapsto> p) else Under Ob T')"
    using IH Tn by auto
  have d: "\<forall>T'. T' \<notin> set (T # ts) \<longrightarrow> map_of Ob' T' = map_of Ob T'"
    using IH M1 by auto
  show ?case using a b c d by blast
qed


text \<open>The loop of ResetOutgoingUpdate\<close>

lemma Reset_loop_effect:
  "ResetOutgoingUpdate_loop k h ts Ob = Inr Ob' \<Longrightarrow> wfO Ob \<Longrightarrow>
   wfO Ob' \<and>
   (\<forall>T. Under Ob' T = (if T \<in> set ts then (Under Ob T)((k, h) := None) else Under Ob T)) \<and>
   (\<forall>T. T \<notin> set ts \<longrightarrow> map_of Ob' T = map_of Ob T)"
proof (induction ts arbitrary: Ob)
  case Nil
  then show ?case by simp
next
  case (Cons T ts)
  from Cons.prems(1) obtain cm m where cm: "map_of Ob T = Some cm" and m: "map_of cm k = Some m"
    by (auto split: option.splits)
  let ?cm' = "RemoveHandle k h m cm"
  let ?Ob1 = "if length ?cm' = 0 then AList.delete T Ob else AList.update T ?cm' Ob"
  from Cons.prems(1) cm m have run: "ResetOutgoingUpdate_loop k h ts ?Ob1 = Inr Ob'"
    by simp
  have wcm: "wfC cm" using Cons.prems(2) cm by (auto simp: wfO_def)
  have w1: "wfO ?Ob1"
    using wfO_delete[OF Cons.prems(2)] wfO_update[OF Cons.prems(2) wfC_RemoveHandle[OF wcm m]]
    by auto
  have U1: "Under ?Ob1 = (Under Ob)(T := (Under Ob T)((k, h) := None))"
  proof (cases "length ?cm' = 0")
    case True
    hence "Pending ?cm' = Map.empty" by (auto simp: Pending_Nil)
    hence "(Pending cm)((k, h) := None) = Map.empty" by (simp add: Pending_RemoveHandle[OF m])
    thus ?thesis using True cm by (auto simp: Under_delete Under_def fun_eq_iff)
  next
    case False
    thus ?thesis using cm by (auto simp: Under_update Pending_RemoveHandle[OF m] Under_def fun_eq_iff)
  qed
  have M1: "\<And>T'. T' \<noteq> T \<Longrightarrow> map_of ?Ob1 T' = map_of Ob T'"
    by (simp add: update_conv' delete_conv')
  note IH = Cons.IH[OF run w1, unfolded U1]
  have a: "wfO Ob'" using IH by auto
  have c: "\<forall>T'. Under Ob' T' = (if T' \<in> set (T # ts) then (Under Ob T')((k, h) := None) else Under Ob T')"
    using IH by auto
  have d: "\<forall>T'. T' \<notin> set (T # ts) \<longrightarrow> map_of Ob' T' = map_of Ob T'"
    using IH M1 by auto
  show ?case using a c d by blast
qed

text \<open>Reading the containers of one kind\<close>

lemma kind_simps [simp]:
  "PropertyToUnresolved b (set_PropertyToUnresolved b' P S) = (if b = b' then P else PropertyToUnresolved b S)"
  "ObjectToUnresolved b (set_PropertyToUnresolved b' P S) = ObjectToUnresolved b S"
  "PropertyToUnresolved b (set_ObjectToUnresolved b' Ob S) = PropertyToUnresolved b S"
  "ObjectToUnresolved b (set_ObjectToUnresolved b' Ob S) = (if b = b' then Ob else ObjectToUnresolved b S)"
  "UnresolvedSets (set_PropertyToUnresolved b' P S) = UnresolvedSets S"
  "UnresolvedSets (set_ObjectToUnresolved b' Ob S) = UnresolvedSets S"
  "NextUnresolvedEntry (set_PropertyToUnresolved b' P S) = NextUnresolvedEntry S"
  "NextUnresolvedEntry (set_ObjectToUnresolved b' Ob S) = NextUnresolvedEntry S"
  "PropertyToUnresolved b (S\<lparr>UnresolvedSets := U\<rparr>) = PropertyToUnresolved b S"
  "ObjectToUnresolved b (S\<lparr>UnresolvedSets := U\<rparr>) = ObjectToUnresolved b S"
  "PropertyToUnresolved b (S\<lparr>NextUnresolvedEntry := N\<rparr>) = PropertyToUnresolved b S"
  "ObjectToUnresolved b (S\<lparr>NextUnresolvedEntry := N\<rparr>) = ObjectToUnresolved b S"
  by (auto simp: PropertyToUnresolved_def ObjectToUnresolved_def set_PropertyToUnresolved_def
                 set_ObjectToUnresolved_def)

lemma Pending_find:
  "map_of (case map_of P k of None \<Rightarrow> [] | Some m \<Rightarrow> m) h = Pending P (k, h)"
  by (auto simp: Pending_def split: option.splits)

lemma Queue_effect:
  assumes "QueueOutgoingUpdate S k h ts b = Inr S'" and "wfO (ObjectToUnresolved b S)"
  shows "Pending (PropertyToUnresolved b S) (k, h) = None"
    and "\<forall>T \<in> set ts. Under (ObjectToUnresolved b S) T (k, h) = None"
    and "Pending (PropertyToUnresolved b S') = (Pending (PropertyToUnresolved b S))((k, h) \<mapsto> NextUnresolvedEntry S)"
    and "\<forall>T. Under (ObjectToUnresolved b S') T =
           (if T \<in> set ts then (Under (ObjectToUnresolved b S) T)((k, h) \<mapsto> NextUnresolvedEntry S)
            else Under (ObjectToUnresolved b S) T)"
    and "\<forall>T. T \<notin> set ts \<longrightarrow> map_of (ObjectToUnresolved b S') T = map_of (ObjectToUnresolved b S) T"
    and "wfO (ObjectToUnresolved b S')"
    and "PropertyToUnresolved (\<not> b) S' = PropertyToUnresolved (\<not> b) S"
    and "ObjectToUnresolved (\<not> b) S' = ObjectToUnresolved (\<not> b) S"
    and "UnresolvedSets S' = (UnresolvedSets S)(NextUnresolvedEntry S \<mapsto> ts)"
    and "NextUnresolvedEntry S' = NextUnresolvedEntry S + 1"
proof -
  from assms(1) have free: "Pending (PropertyToUnresolved b S) (k, h) = None"
    unfolding QueueOutgoingUpdate_def Pending_find by (auto split: if_splits)
  from assms(1) obtain Ob' where
    loop: "QueueOutgoingUpdate_loop k h (NextUnresolvedEntry S) ts (ObjectToUnresolved b S) = Inr Ob'"
    and S': "S' = set_PropertyToUnresolved b
                 (AList.update k (AList.update h (NextUnresolvedEntry S)
                    (case map_of (PropertyToUnresolved b S) k of None \<Rightarrow> [] | Some m \<Rightarrow> m))
                    (PropertyToUnresolved b S))
                 (set_ObjectToUnresolved b Ob'
                    (S\<lparr>UnresolvedSets := (UnresolvedSets S)(NextUnresolvedEntry S \<mapsto> ts),
                       NextUnresolvedEntry := NextUnresolvedEntry S + 1\<rparr>))"
    unfolding QueueOutgoingUpdate_def by (auto split: if_splits sum.splits)
  note L = Queue_loop_effect[OF loop assms(2)]
  show "Pending (PropertyToUnresolved b S) (k, h) = None" by (rule free)
  show "\<forall>T \<in> set ts. Under (ObjectToUnresolved b S) T (k, h) = None" using L by blast
  show "Pending (PropertyToUnresolved b S') = (Pending (PropertyToUnresolved b S))((k, h) \<mapsto> NextUnresolvedEntry S)"
    by (simp add: S' Pending_update)
  show "\<forall>T. Under (ObjectToUnresolved b S') T =
           (if T \<in> set ts then (Under (ObjectToUnresolved b S) T)((k, h) \<mapsto> NextUnresolvedEntry S)
            else Under (ObjectToUnresolved b S) T)"
    using L by (simp add: S')
  show "\<forall>T. T \<notin> set ts \<longrightarrow> map_of (ObjectToUnresolved b S') T = map_of (ObjectToUnresolved b S) T"
    using L by (simp add: S')
  show "wfO (ObjectToUnresolved b S')" using L by (simp add: S')
  show "PropertyToUnresolved (\<not> b) S' = PropertyToUnresolved (\<not> b) S" by (simp add: S')
  show "ObjectToUnresolved (\<not> b) S' = ObjectToUnresolved (\<not> b) S" by (simp add: S')
  show "UnresolvedSets S' = (UnresolvedSets S)(NextUnresolvedEntry S \<mapsto> ts)" by (simp add: S')
  show "NextUnresolvedEntry S' = NextUnresolvedEntry S + 1" by (simp add: S')
qed

lemma Reset_noop:
  "Pending (PropertyToUnresolved b S) (k, h) = None \<Longrightarrow> ResetOutgoingUpdate S k h b = Inr S"
  by (auto simp: ResetOutgoingUpdate_def Pending_def split: option.splits)

lemma Reset_effect:
  assumes "ResetOutgoingUpdate S k h b = Inr S'" and "wfO (ObjectToUnresolved b S)"
    and "Pending (PropertyToUnresolved b S) (k, h) = Some p"
  shows "\<exists>ts. UnresolvedSets S p = Some ts \<and>
           (\<forall>T. Under (ObjectToUnresolved b S') T =
              (if T \<in> set ts then (Under (ObjectToUnresolved b S) T)((k, h) := None)
               else Under (ObjectToUnresolved b S) T)) \<and>
           (\<forall>T. T \<notin> set ts \<longrightarrow> map_of (ObjectToUnresolved b S') T = map_of (ObjectToUnresolved b S) T)"
    and "Pending (PropertyToUnresolved b S') = (Pending (PropertyToUnresolved b S))((k, h) := None)"
    and "wfO (ObjectToUnresolved b S')"
    and "PropertyToUnresolved (\<not> b) S' = PropertyToUnresolved (\<not> b) S"
    and "ObjectToUnresolved (\<not> b) S' = ObjectToUnresolved (\<not> b) S"
    and "UnresolvedSets S' = UnresolvedSets S"
    and "NextUnresolvedEntry S' = NextUnresolvedEntry S"
proof -
  from assms(3) obtain m where m: "map_of (PropertyToUnresolved b S) k = Some m" and mh: "map_of m h = Some p"
    by (auto simp: Pending_def split: option.splits)
  from assms(1) m mh obtain ts Ob' where ts: "UnresolvedSets S p = Some ts"
    and loop: "ResetOutgoingUpdate_loop k h ts (ObjectToUnresolved b S) = Inr Ob'"
    and S': "S' = set_PropertyToUnresolved b (RemoveHandle k h m (PropertyToUnresolved b S))
                    (set_ObjectToUnresolved b Ob' S)"
    unfolding ResetOutgoingUpdate_def by (auto split: option.splits sum.splits)
  note L = Reset_loop_effect[OF loop assms(2)]
  show "\<exists>ts. UnresolvedSets S p = Some ts \<and>
           (\<forall>T. Under (ObjectToUnresolved b S') T =
              (if T \<in> set ts then (Under (ObjectToUnresolved b S) T)((k, h) := None)
               else Under (ObjectToUnresolved b S) T)) \<and>
           (\<forall>T. T \<notin> set ts \<longrightarrow> map_of (ObjectToUnresolved b S') T = map_of (ObjectToUnresolved b S) T)"
    using L ts by (simp add: S')
  show "Pending (PropertyToUnresolved b S') = (Pending (PropertyToUnresolved b S))((k, h) := None)"
    by (simp add: S' Pending_RemoveHandle[OF m])
  show "wfO (ObjectToUnresolved b S')" using L by (simp add: S')
  show "PropertyToUnresolved (\<not> b) S' = PropertyToUnresolved (\<not> b) S" by (simp add: S')
  show "ObjectToUnresolved (\<not> b) S' = ObjectToUnresolved (\<not> b) S" by (simp add: S')
  show "UnresolvedSets S' = UnresolvedSets S" by (simp add: S')
  show "NextUnresolvedEntry S' = NextUnresolvedEntry S" by (simp add: S')
qed

lemma InvX_wf: "InvX X S \<Longrightarrow> wfO (ObjectToUnresolved b S)"
  by (simp add: InvX_def)

lemma InvX_B: "InvX X S \<Longrightarrow> Pending (PropertyToUnresolved b S) key = Some p \<Longrightarrow>
   p < NextUnresolvedEntry S \<and> UnresolvedSets S p \<noteq> None"
  unfolding InvX_def by blast

lemma InvX_D: "InvX X S \<Longrightarrow> Pending (PropertyToUnresolved b S) key = Some p \<Longrightarrow>
   Pending (PropertyToUnresolved b' S) key' = Some p \<Longrightarrow> b = b' \<and> key = key'"
  unfolding InvX_def by blast

lemma InvX_C: "InvX X S \<Longrightarrow> (b, T) \<notin> X \<Longrightarrow> Under (ObjectToUnresolved b S) T key = Some p \<Longrightarrow>
   Pending (PropertyToUnresolved b S) key = Some p \<and> (\<exists>ts. UnresolvedSets S p = Some ts \<and> T \<in> set ts)"
  unfolding InvX_def by blast

lemma InvXI:
  assumes "\<And>b. wfO (ObjectToUnresolved b S)"
    and "\<And>b key p. Pending (PropertyToUnresolved b S) key = Some p \<Longrightarrow>
           p < NextUnresolvedEntry S \<and> UnresolvedSets S p \<noteq> None"
    and "\<And>b b' key key' p. Pending (PropertyToUnresolved b S) key = Some p \<Longrightarrow>
           Pending (PropertyToUnresolved b' S) key' = Some p \<Longrightarrow> b = b' \<and> key = key'"
    and "\<And>b T key p. (b, T) \<notin> X \<Longrightarrow> Under (ObjectToUnresolved b S) T key = Some p \<Longrightarrow>
           Pending (PropertyToUnresolved b S) key = Some p \<and>
           (\<exists>ts. UnresolvedSets S p = Some ts \<and> T \<in> set ts)"
  shows "InvX X S"
  unfolding InvX_def using assms by blast

lemma other_kind: "b' \<noteq> b \<Longrightarrow> b' = (\<not> b)" by auto

lemma Queue_views:
  assumes q: "QueueOutgoingUpdate S k h ts b = Inr S'" and w: "wfO (ObjectToUnresolved b S)"
  shows "Pending (PropertyToUnresolved b' S') key =
           (if b' = b \<and> key = (k, h) then Some (NextUnresolvedEntry S)
            else Pending (PropertyToUnresolved b' S) key)"
    and "Under (ObjectToUnresolved b' S') T key =
           (if b' = b \<and> key = (k, h) \<and> T \<in> set ts then Some (NextUnresolvedEntry S)
            else Under (ObjectToUnresolved b' S) T key)"
proof -
  note E = Queue_effect[OF q w]
  show "Pending (PropertyToUnresolved b' S') key =
           (if b' = b \<and> key = (k, h) then Some (NextUnresolvedEntry S)
            else Pending (PropertyToUnresolved b' S) key)"
  proof (cases "b' = b")
    case True thus ?thesis by (simp add: E(3))
  next
    case False
    hence "b' = (\<not> b)" by auto
    thus ?thesis using E(7) False by simp
  qed
  show "Under (ObjectToUnresolved b' S') T key =
           (if b' = b \<and> key = (k, h) \<and> T \<in> set ts then Some (NextUnresolvedEntry S)
            else Under (ObjectToUnresolved b' S) T key)"
  proof (cases "b' = b")
    case True thus ?thesis using E(4) by simp
  next
    case False
    hence "b' = (\<not> b)" by auto
    thus ?thesis using E(8) False by simp
  qed
qed

lemma Reset_views:
  assumes q: "ResetOutgoingUpdate S k h b = Inr S'" and w: "wfO (ObjectToUnresolved b S)"
    and p0: "Pending (PropertyToUnresolved b S) (k, h) = Some p0"
  shows "\<exists>ts0. UnresolvedSets S p0 = Some ts0 \<and>
           (\<forall>b' T key. Under (ObjectToUnresolved b' S') T key =
              (if b' = b \<and> key = (k, h) \<and> T \<in> set ts0 then None
               else Under (ObjectToUnresolved b' S) T key))"
    and "Pending (PropertyToUnresolved b' S') key =
           (if b' = b \<and> key = (k, h) then None else Pending (PropertyToUnresolved b' S) key)"
proof -
  note E = Reset_effect[OF q w p0]
  from E(1) obtain ts0 where ts0: "UnresolvedSets S p0 = Some ts0"
    and Ueq: "\<And>T. Under (ObjectToUnresolved b S') T =
              (if T \<in> set ts0 then (Under (ObjectToUnresolved b S) T)((k, h) := None)
               else Under (ObjectToUnresolved b S) T)" by blast
  have "\<And>b' T key. Under (ObjectToUnresolved b' S') T key =
              (if b' = b \<and> key = (k, h) \<and> T \<in> set ts0 then None
               else Under (ObjectToUnresolved b' S) T key)"
  proof -
    fix b' T key
    show "Under (ObjectToUnresolved b' S') T key =
              (if b' = b \<and> key = (k, h) \<and> T \<in> set ts0 then None
               else Under (ObjectToUnresolved b' S) T key)"
    proof (cases "b' = b")
      case True thus ?thesis by (simp add: Ueq)
    next
      case False
      hence "b' = (\<not> b)" by auto
      thus ?thesis using E(5) False by simp
    qed
  qed
  with ts0 show "\<exists>ts0. UnresolvedSets S p0 = Some ts0 \<and>
           (\<forall>b' T key. Under (ObjectToUnresolved b' S') T key =
              (if b' = b \<and> key = (k, h) \<and> T \<in> set ts0 then None
               else Under (ObjectToUnresolved b' S) T key))" by blast
  show "Pending (PropertyToUnresolved b' S') key =
           (if b' = b \<and> key = (k, h) then None else Pending (PropertyToUnresolved b' S) key)"
  proof (cases "b' = b")
    case True thus ?thesis by (simp add: E(2))
  next
    case False
    hence "b' = (\<not> b)" by auto
    thus ?thesis using E(4) False by simp
  qed
qed

lemma Queue_InvX:
  assumes q: "QueueOutgoingUpdate S k h ts b = Inr S'" and inv: "InvX X S"
  shows "InvX X S'"
proof -
  note E = Queue_effect[OF q InvX_wf[OF inv]]
  let ?N = "NextUnresolvedEntry S"
  note P' = Queue_views(1)[OF q InvX_wf[OF inv]]
  note U' = Queue_views(2)[OF q InvX_wf[OF inv]]
  show ?thesis
  proof (rule InvXI)
    fix b' show "wfO (ObjectToUnresolved b' S')"
      using E(6) E(8) InvX_wf[OF inv] by (cases "b' = b") (auto dest: other_kind)
  next
    fix b' key p assume "Pending (PropertyToUnresolved b' S') key = Some p"
    thus "p < NextUnresolvedEntry S' \<and> UnresolvedSets S' p \<noteq> None"
      using InvX_B[OF inv, of b' key p] by (auto simp: P' E(9) E(10) split: if_splits)
  next
    fix b1 b2 key1 key2 p
    assume "Pending (PropertyToUnresolved b1 S') key1 = Some p"
       "Pending (PropertyToUnresolved b2 S') key2 = Some p"
    thus "b1 = b2 \<and> key1 = key2"
      using InvX_D[OF inv, of b1 key1 p b2 key2] InvX_B[OF inv, of b1 key1 p] InvX_B[OF inv, of b2 key2 p]
      by (auto simp: P' split: if_splits)
  next
    fix b' T key p assume T: "(b', T) \<notin> X" and u: "Under (ObjectToUnresolved b' S') T key = Some p"
    show "Pending (PropertyToUnresolved b' S') key = Some p \<and>
           (\<exists>ts. UnresolvedSets S' p = Some ts \<and> T \<in> set ts)"
    proof (cases "b' = b \<and> key = (k, h) \<and> T \<in> set ts")
      case True
      thus ?thesis using u by (auto simp: P' U' E(9))
    next
      case False
      with u have u0: "Under (ObjectToUnresolved b' S) T key = Some p"
        by (auto simp: U' split: if_splits)
      note C = InvX_C[OF inv T u0]
      have n: "\<not> (b' = b \<and> key = (k, h))"
      proof
        assume "b' = b \<and> key = (k, h)"
        hence "Pending (PropertyToUnresolved b' S) key = None" using E(1) by simp
        thus False using C by simp
      qed
      have "p \<noteq> ?N" using InvX_B[OF inv, of b' key p] C by auto
      hence "UnresolvedSets S' p = UnresolvedSets S p" by (simp add: E(9))
      moreover have "Pending (PropertyToUnresolved b' S') key = Pending (PropertyToUnresolved b' S) key"
        unfolding P' using n by (simp only: if_False)
      ultimately show ?thesis using C by simp
    qed
  qed
qed

lemma Reset_InvX:
  assumes q: "ResetOutgoingUpdate S k h b = Inr S'" and inv: "InvX X S"
  shows "InvX X S'"
proof (cases "Pending (PropertyToUnresolved b S) (k, h)")
  case None
  from Reset_noop[OF None] q have "S' = S" by simp
  thus ?thesis using inv by simp
next
  case (Some p0)
  note E = Reset_effect[OF q InvX_wf[OF inv] Some]
  from Reset_views(1)[OF q InvX_wf[OF inv] Some] obtain ts0 where ts0: "UnresolvedSets S p0 = Some ts0"
    and U': "\<And>b' T key. Under (ObjectToUnresolved b' S') T key =
              (if b' = b \<and> key = (k, h) \<and> T \<in> set ts0 then None else Under (ObjectToUnresolved b' S) T key)"
    by blast
  note P' = Reset_views(2)[OF q InvX_wf[OF inv] Some]
  show ?thesis
  proof (rule InvXI)
    fix b' show "wfO (ObjectToUnresolved b' S')"
      using E(3) E(5) InvX_wf[OF inv] by (cases "b' = b") (auto dest: other_kind)
  next
    fix b' key p assume "Pending (PropertyToUnresolved b' S') key = Some p"
    thus "p < NextUnresolvedEntry S' \<and> UnresolvedSets S' p \<noteq> None"
      using InvX_B[OF inv, of b' key p] by (auto simp: P' E(6) E(7) split: if_splits)
  next
    fix b1 b2 key1 key2 p
    assume "Pending (PropertyToUnresolved b1 S') key1 = Some p"
       "Pending (PropertyToUnresolved b2 S') key2 = Some p"
    thus "b1 = b2 \<and> key1 = key2"
      using InvX_D[OF inv, of b1 key1 p b2 key2]
      by (auto simp: P' split: if_splits)
  next
    fix b' T key p assume T: "(b', T) \<notin> X" and u: "Under (ObjectToUnresolved b' S') T key = Some p"
    hence u0: "Under (ObjectToUnresolved b' S) T key = Some p" by (auto simp: U' split: if_splits)
    note C = InvX_C[OF inv T u0]
    have "\<not> (b' = b \<and> key = (k, h))"
    proof
      assume a: "b' = b \<and> key = (k, h)"
      with C Some have "p = p0" by simp
      with C ts0 have "T \<in> set ts0" by auto
      with a u show False by (simp add: U')
    qed
    thus "Pending (PropertyToUnresolved b' S') key = Some p \<and>
           (\<exists>ts. UnresolvedSets S' p = Some ts \<and> T \<in> set ts)"
      using C by (auto simp: P' E(6))
  qed
qed

lemma Queue_Frame:
  assumes q: "QueueOutgoingUpdate S k h ts b = Inr S'" and w: "wfO (ObjectToUnresolved b S)"
  shows "Frame {(k, h)} b S S'"
  using Queue_effect[OF q w] unfolding Frame_def by auto

lemma Reset_Frame:
  assumes q: "ResetOutgoingUpdate S k h b = Inr S'" and w: "wfO (ObjectToUnresolved b S)"
  shows "Frame {(k, h)} b S S'"
proof (cases "Pending (PropertyToUnresolved b S) (k, h)")
  case None
  from Reset_noop[OF None] q have "S' = S" by simp
  thus ?thesis by (simp add: Frame_def)
next
  case (Some p0)
  show ?thesis using Reset_effect[OF q w Some] unfolding Frame_def by auto
qed

lemma Frame_refl: "Frame K b S S"
  by (simp add: Frame_def)

lemma Frame_trans: "Frame K b S S1 \<Longrightarrow> Frame K' b S1 S2 \<Longrightarrow> Frame (K \<union> K') b S S2"
  unfolding Frame_def by auto

lemma Frame_mono: "Frame K b S S' \<Longrightarrow> K \<subseteq> K' \<Longrightarrow> Frame K' b S S'"
  unfolding Frame_def by (simp add: subset_iff) blast

lemma Queue_Complete:
  assumes q: "QueueOutgoingUpdate S k h ts b = Inr S'" and inv: "InvX X S"
    and c: "Complete S b' key"
  shows "Complete S' b' key"
proof -
  note E = Queue_effect[OF q InvX_wf[OF inv]]
  let ?N = "NextUnresolvedEntry S"
  note P' = Queue_views(1)[OF q InvX_wf[OF inv]]
  note U' = Queue_views(2)[OF q InvX_wf[OF inv]]
  show ?thesis
    unfolding Complete_def
  proof (intro allI impI)
    fix p ts' T
    assume p: "Pending (PropertyToUnresolved b' S') key = Some p"
      and t: "UnresolvedSets S' p = Some ts'" and T: "T \<in> set ts'"
    show "Under (ObjectToUnresolved b' S') T key = Some p"
    proof (cases "b' = b \<and> key = (k, h)")
      case True
      thus ?thesis using p t T by (auto simp: P' U' E(9))
    next
      case False
      with p have p0: "Pending (PropertyToUnresolved b' S) key = Some p"
        by (auto simp: P' split: if_splits)
      hence "p \<noteq> ?N" using InvX_B[OF inv p0] by auto
      hence "UnresolvedSets S p = Some ts'" using t by (simp add: E(9))
      with c p0 T have "Under (ObjectToUnresolved b' S) T key = Some p" unfolding Complete_def by blast
      moreover have "Under (ObjectToUnresolved b' S') T key = Under (ObjectToUnresolved b' S) T key"
        unfolding U' using False by auto
      ultimately show ?thesis by simp
    qed
  qed
qed

lemma Queue_Complete_new:
  assumes q: "QueueOutgoingUpdate S k h ts b = Inr S'" and inv: "InvX X S"
  shows "Complete S' b (k, h)"
  using Queue_effect[OF q InvX_wf[OF inv]] unfolding Complete_def by auto

lemma Reset_Complete:
  assumes q: "ResetOutgoingUpdate S k h b = Inr S'" and inv: "InvX X S"
    and c: "Complete S b' key"
  shows "Complete S' b' key"
proof (cases "Pending (PropertyToUnresolved b S) (k, h)")
  case None
  from Reset_noop[OF None] q have "S' = S" by simp
  thus ?thesis using c by simp
next
  case (Some p0)
  note E = Reset_effect[OF q InvX_wf[OF inv] Some]
  from Reset_views(1)[OF q InvX_wf[OF inv] Some] obtain ts0 where ts0: "UnresolvedSets S p0 = Some ts0"
    and U': "\<And>b' T key. Under (ObjectToUnresolved b' S') T key =
              (if b' = b \<and> key = (k, h) \<and> T \<in> set ts0 then None else Under (ObjectToUnresolved b' S) T key)"
    by blast
  note P' = Reset_views(2)[OF q InvX_wf[OF inv] Some]
  show ?thesis
    using c unfolding Complete_def by (auto simp: P' U' E(6) split: if_splits)
qed

lemma Queue_Names:
  assumes q: "QueueOutgoingUpdate S k h ts b = Inr S'" and inv: "InvX X S"
  shows "Names S' b' key T = (if b' = b \<and> key = (k, h) then T \<in> set ts else Names S b' key T)"
proof -
  note E = Queue_effect[OF q InvX_wf[OF inv]]
  note P' = Queue_views(1)[OF q InvX_wf[OF inv]]
  show ?thesis
  proof (cases "b' = b \<and> key = (k, h)")
    case True
    thus ?thesis by (auto simp: Names_def P' E(9))
  next
    case False
    have eq: "Pending (PropertyToUnresolved b' S') key = Pending (PropertyToUnresolved b' S) key"
      unfolding P' using False by auto
    have "\<And>p. Pending (PropertyToUnresolved b' S) key = Some p \<Longrightarrow> UnresolvedSets S' p = UnresolvedSets S p"
    proof -
      fix p assume a: "Pending (PropertyToUnresolved b' S) key = Some p"
      from InvX_B[OF inv a] have "p \<noteq> NextUnresolvedEntry S" by auto
      thus "UnresolvedSets S' p = UnresolvedSets S p" by (simp add: E(9))
    qed
    hence "Names S' b' key T = Names S b' key T"
      unfolding Names_def eq by metis
    thus ?thesis using False by auto
  qed
qed

lemma Reset_Names:
  assumes q: "ResetOutgoingUpdate S k h b = Inr S'" and inv: "InvX X S"
  shows "Names S' b' key T = (if b' = b \<and> key = (k, h) then False else Names S b' key T)"
proof (cases "Pending (PropertyToUnresolved b S) (k, h)")
  case None
  from Reset_noop[OF None] q have "S' = S" by simp
  thus ?thesis using None by (auto simp: Names_def)
next
  case (Some p0)
  note E = Reset_effect[OF q InvX_wf[OF inv] Some]
  note P' = Reset_views(2)[OF q InvX_wf[OF inv] Some]
  show ?thesis
  proof (cases "b' = b \<and> key = (k, h)")
    case True
    thus ?thesis by (auto simp: Names_def P')
  next
    case False
    have eq: "Pending (PropertyToUnresolved b' S') key = Pending (PropertyToUnresolved b' S) key"
      unfolding P' using False by auto
    have "Names S' b' key T = Names S b' key T"
      unfolding Names_def eq E(6) by auto
    thus ?thesis using False by auto
  qed
qed

lemma Reset_keeps_T:
  assumes q: "ResetOutgoingUpdate S k h b = Inr S'" and inv: "InvX X S"
    and nT: "\<not> Names S b (k, h) T"
  shows "map_of (ObjectToUnresolved b S') T = map_of (ObjectToUnresolved b S) T"
proof (cases "Pending (PropertyToUnresolved b S) (k, h)")
  case None
  from Reset_noop[OF None] q have "S' = S" by simp
  thus ?thesis by simp
next
  case (Some p0)
  from Reset_effect(1)[OF q InvX_wf[OF inv] Some] obtain ts where
    ts: "UnresolvedSets S p0 = Some ts"
    and m: "\<forall>T. T \<notin> set ts \<longrightarrow> map_of (ObjectToUnresolved b S') T = map_of (ObjectToUnresolved b S) T"
    by blast
  have "T \<notin> set ts" using nT Some ts by (auto simp: Names_def)
  thus ?thesis using m by blast
qed

lemma Queue_keeps_T:
  assumes q: "QueueOutgoingUpdate S k h ts b = Inr S'" and inv: "InvX X S"
    and hT: "Under (ObjectToUnresolved b S) T (k, h) \<noteq> None"
  shows "map_of (ObjectToUnresolved b S') T = map_of (ObjectToUnresolved b S) T" and "T \<notin> set ts"
proof -
  note E = Queue_effect[OF q InvX_wf[OF inv]]
  show "T \<notin> set ts" using E(2) hT by auto
  thus "map_of (ObjectToUnresolved b S') T = map_of (ObjectToUnresolved b S) T" using E(5) by blast
qed

lemma Under_cong: "map_of Ob' T = map_of Ob T \<Longrightarrow> Under Ob' T = Under Ob T"
  by (simp add: Under_def)

text \<open>The loops of SendComponentUpdates\<close>

lemma SendLoop_InvX:
  "SendComponentUpdates_loop b k UMap hs S = Inr S' \<Longrightarrow> InvX X S \<Longrightarrow> InvX X S'"
proof (induction hs arbitrary: S)
  case Nil
  then show ?case by simp
next
  case (Cons h hs)
  show ?case
  proof (cases "b \<or> h > 0")
    case False
    with Cons.prems have "SendComponentUpdates_loop b k UMap hs S = Inr S'" by simp
    from Cons.IH[OF this Cons.prems(2)] show ?thesis .
  next
    case True
    with Cons.prems(1) obtain S1 where r: "ResetOutgoingUpdate S k h b = Inr S1"
      by (auto split: sum.splits)
    note i1 = Reset_InvX[OF r Cons.prems(2)]
    show ?thesis
    proof (cases "map_of UMap h")
      case None
      with Cons.prems(1) True r have "SendComponentUpdates_loop b k UMap hs S1 = Inr S'" by simp
      from Cons.IH[OF this i1] show ?thesis .
    next
      case (Some ts)
      with Cons.prems(1) True r obtain S2 where q: "QueueOutgoingUpdate S1 k h ts b = Inr S2"
        and l: "SendComponentUpdates_loop b k UMap hs S2 = Inr S'"
        by (auto split: sum.splits)
      from Cons.IH[OF l Queue_InvX[OF q i1]] show ?thesis .
    qed
  qed
qed

lemma SendLoop_Frame:
  "SendComponentUpdates_loop b k UMap hs S = Inr S' \<Longrightarrow> InvX X S \<Longrightarrow>
   Frame {(k, h) | h. h \<in> set hs \<and> (b \<or> h > 0)} b S S'"
proof (induction hs arbitrary: S)
  case Nil
  then show ?case by (simp add: Frame_refl)
next
  case (Cons h hs)
  show ?case
  proof (cases "b \<or> h > 0")
    case False
    with Cons.prems have "SendComponentUpdates_loop b k UMap hs S = Inr S'" by simp
    from Cons.IH[OF this Cons.prems(2)] show ?thesis
      by (rule Frame_mono) auto
  next
    case True
    with Cons.prems(1) obtain S1 where r: "ResetOutgoingUpdate S k h b = Inr S1"
      by (auto split: sum.splits)
    note i1 = Reset_InvX[OF r Cons.prems(2)]
    note f1 = Reset_Frame[OF r InvX_wf[OF Cons.prems(2)]]
    show ?thesis
    proof (cases "map_of UMap h")
      case None
      with Cons.prems(1) True r have "SendComponentUpdates_loop b k UMap hs S1 = Inr S'" by simp
      from Frame_trans[OF f1 Cons.IH[OF this i1]] show ?thesis
        by (rule Frame_mono) (use True in auto)
    next
      case (Some ts)
      with Cons.prems(1) True r obtain S2 where q: "QueueOutgoingUpdate S1 k h ts b = Inr S2"
        and l: "SendComponentUpdates_loop b k UMap hs S2 = Inr S'"
        by (auto split: sum.splits)
      note f2 = Queue_Frame[OF q InvX_wf[OF i1]]
      from Frame_trans[OF Frame_trans[OF f1 f2] Cons.IH[OF l Queue_InvX[OF q i1]]] show ?thesis
        by (rule Frame_mono) (use True in auto)
    qed
  qed
qed

lemma SendLoop_Complete:
  "SendComponentUpdates_loop b k UMap hs S = Inr S' \<Longrightarrow> InvX X S \<Longrightarrow>
   Complete S b' key \<Longrightarrow> Complete S' b' key"
proof (induction hs arbitrary: S)
  case Nil
  then show ?case by simp
next
  case (Cons h hs)
  show ?case
  proof (cases "b \<or> h > 0")
    case False
    with Cons.prems have "SendComponentUpdates_loop b k UMap hs S = Inr S'" by simp
    from Cons.IH[OF this Cons.prems(2,3)] show ?thesis .
  next
    case True
    with Cons.prems(1) obtain S1 where r: "ResetOutgoingUpdate S k h b = Inr S1"
      by (auto split: sum.splits)
    note i1 = Reset_InvX[OF r Cons.prems(2)]
    note c1 = Reset_Complete[OF r Cons.prems(2) Cons.prems(3)]
    show ?thesis
    proof (cases "map_of UMap h")
      case None
      with Cons.prems(1) True r have "SendComponentUpdates_loop b k UMap hs S1 = Inr S'" by simp
      from Cons.IH[OF this i1 c1] show ?thesis .
    next
      case (Some ts)
      with Cons.prems(1) True r obtain S2 where q: "QueueOutgoingUpdate S1 k h ts b = Inr S2"
        and l: "SendComponentUpdates_loop b k UMap hs S2 = Inr S'"
        by (auto split: sum.splits)
      note c2 = Queue_Complete[OF q i1 c1]
      from Cons.IH[OF l Queue_InvX[OF q i1] c2] show ?thesis .
    qed
  qed
qed

lemma SendLoop_keeps_T:
  "SendComponentUpdates_loop b k UMap hs S = Inr S' \<Longrightarrow> InvX X S \<Longrightarrow>
   (\<forall>h \<in> set hs. (b \<or> h > 0) \<longrightarrow>
      Under (ObjectToUnresolved b S) T (k, h) \<noteq> None \<and> \<not> Names S b (k, h) T) \<Longrightarrow>
   map_of (ObjectToUnresolved b S') T = map_of (ObjectToUnresolved b S) T \<and>
   (\<forall>b' key. Names S' b' key T \<longrightarrow> Names S b' key T)"
proof (induction hs arbitrary: S)
  case Nil
  then show ?case by simp
next
  case (Cons h hs)
  have rest: "\<forall>h' \<in> set hs. (b \<or> h' > 0) \<longrightarrow>
      Under (ObjectToUnresolved b S) T (k, h') \<noteq> None \<and> \<not> Names S b (k, h') T"
    using Cons.prems(3) by simp
  show ?case
  proof (cases "b \<or> h > 0")
    case False
    with Cons.prems have "SendComponentUpdates_loop b k UMap hs S = Inr S'" by simp
    from Cons.IH[OF this Cons.prems(2) rest] show ?thesis .
  next
    case True
    have cur: "Under (ObjectToUnresolved b S) T (k, h) \<noteq> None" "\<not> Names S b (k, h) T"
      using Cons.prems(3) True by (cases b; simp)+
    from True Cons.prems(1) obtain S1 where r: "ResetOutgoingUpdate S k h b = Inr S1"
      by (auto split: sum.splits)
    note i1 = Reset_InvX[OF r Cons.prems(2)]
    have m1: "map_of (ObjectToUnresolved b S1) T = map_of (ObjectToUnresolved b S) T"
      by (rule Reset_keeps_T[OF r Cons.prems(2) cur(2)])
    have n1: "\<And>b' key. Names S1 b' key T \<Longrightarrow> Names S b' key T"
      using Reset_Names[OF r Cons.prems(2)] by (auto split: if_splits)
    have rest1: "\<forall>h' \<in> set hs. (b \<or> h' > 0) \<longrightarrow>
      Under (ObjectToUnresolved b S1) T (k, h') \<noteq> None \<and> \<not> Names S1 b (k, h') T"
      using rest n1 unfolding Under_cong[OF m1] by blast
    show ?thesis
    proof (cases "map_of UMap h")
      case None
      with Cons.prems(1) True r have "SendComponentUpdates_loop b k UMap hs S1 = Inr S'" by simp
      from Cons.IH[OF this i1 rest1] m1 n1 show ?thesis by auto
    next
      case (Some ts)
      with Cons.prems(1) True r obtain S2 where q: "QueueOutgoingUpdate S1 k h ts b = Inr S2"
        and l: "SendComponentUpdates_loop b k UMap hs S2 = Inr S'"
        by (auto split: sum.splits)
      have hT: "Under (ObjectToUnresolved b S1) T (k, h) \<noteq> None"
        using cur(1) unfolding Under_cong[OF m1] .
      note K = Queue_keeps_T[OF q i1 hT]
      have n2: "\<And>b' key. Names S2 b' key T \<Longrightarrow> Names S1 b' key T"
        using Queue_Names[OF q i1] K(2) by (auto split: if_splits)
      have rest2: "\<forall>h' \<in> set hs. (b \<or> h' > 0) \<longrightarrow>
          Under (ObjectToUnresolved b S2) T (k, h') \<noteq> None \<and> \<not> Names S2 b (k, h') T"
        using rest1 n2 unfolding Under_cong[OF K(1)] by blast
      from Cons.IH[OF l Queue_InvX[OF q i1] rest2] K(1) m1 n1 n2 show ?thesis by auto
    qed
  qed
qed

lemma ArrayFraming_step:
  "(if \<not> b then IsDynamicArrayHandle
                    (if ObjectHasReplicator W (fst k) (snd k)
                     then Some (ObjectRepLayout W (snd k)) else None) h
    else Inr False) = Inr bIsArray \<Longrightarrow>
   [h] @ (if bIsArray then [0, 0] else []) = ArrayFraming W b k h"
  by (auto simp: ArrayFraming_def split: if_splits)

lemma handles_effect:
  assumes "ResolveOutgoingOperations_handles W b T k m S PH = Inr (S', PH')"
    and "distinct (map fst m)" and "distinct (map snd m)"
    and "\<forall>(h, p) \<in> set m. Pending (PropertyToUnresolved b S) (k, h) = Some p"
  shows "UnresolvedSets S' = (\<lambda>q. if q \<in> snd ` set m then map_option (removeAll T) (UnresolvedSets S q)
                                   else UnresolvedSets S q) \<and>
         Pending (PropertyToUnresolved b S') =
           (\<lambda>key. if fst key = k \<and> (\<exists>p. (snd key, p) \<in> set m \<and> Resolved S T p) then None
                   else Pending (PropertyToUnresolved b S) key) \<and>
         PH' = PH @ FlushedHandles W S T b k m \<and>
         (\<forall>p \<in> snd ` set m. UnresolvedSets S p \<noteq> None) \<and>
         ObjectToUnresolved b S' = ObjectToUnresolved b S \<and>
         ObjectToUnresolved (\<not> b) S' = ObjectToUnresolved (\<not> b) S \<and>
         PropertyToUnresolved (\<not> b) S' = PropertyToUnresolved (\<not> b) S \<and>
         NextUnresolvedEntry S' = NextUnresolvedEntry S"
  using assms
proof (induction m arbitrary: S PH)
  case Nil
  then show ?case by (simp add: FlushedHandles_def ResolvedHandles_def fun_eq_iff)
next
  case (Cons hp m)
  obtain h p where hp: "hp = (h, p)" by (cases hp)
  from Cons.prems(1) obtain ts where ts: "UnresolvedSets S p = Some ts"
    unfolding hp by (auto split: option.splits)
  let ?U = "(UnresolvedSets S)(p \<mapsto> removeAll T ts)"
  have hm: "h \<notin> fst ` set m" and pm: "p \<notin> snd ` set m"
    and dh: "distinct (map fst m)" and dp: "distinct (map snd m)"
    using Cons.prems(2,3) unfolding hp by auto
  have pend0: "Pending (PropertyToUnresolved b S) (k, h) = Some p"
    using Cons.prems(4) unfolding hp by simp
  have pendm: "\<forall>(h', p') \<in> set m. Pending (PropertyToUnresolved b S) (k, h') = Some p'"
    using Cons.prems(4) by simp
  show ?case
  proof (cases "removeAll T ts = []")
    case False
    let ?S1 = "S\<lparr>UnresolvedSets := ?U\<rparr>"
    from Cons.prems(1) ts False
    have run: "ResolveOutgoingOperations_handles W b T k m ?S1 PH = Inr (S', PH')"
      unfolding hp by simp
    have pend1: "\<forall>(h', p') \<in> set m. Pending (PropertyToUnresolved b ?S1) (k, h') = Some p'"
      using pendm by simp
    note IH = Cons.IH[OF run dh dp pend1]
    note IHa = IH[THEN conjunct1]
    note IHb = IH[THEN conjunct2, THEN conjunct1]
    note IHc = IH[THEN conjunct2, THEN conjunct2, THEN conjunct1]
    note IHd = IH[THEN conjunct2, THEN conjunct2, THEN conjunct2, THEN conjunct1]
    note IHe = IH[THEN conjunct2, THEN conjunct2, THEN conjunct2, THEN conjunct2]
    have X: "\<And>key. Pending (PropertyToUnresolved b S') key =
           (if fst key = k \<and> (\<exists>q. (snd key, q) \<in> set m \<and> Resolved ?S1 T q) then None
            else Pending (PropertyToUnresolved b ?S1) key)"
      by (subst IHb) (rule refl)
    have R1: "\<And>q. q \<noteq> p \<Longrightarrow> Resolved ?S1 T q = Resolved S T q" by (simp add: Resolved_def)
    have Rm: "\<And>h' q. (h', q) \<in> set m \<Longrightarrow> Resolved ?S1 T q = Resolved S T q"
    proof -
      fix h' q assume "(h', q) \<in> set m"
      hence "q \<noteq> p" using pm by (auto simp: image_iff)
      thus "Resolved ?S1 T q = Resolved S T q" by (rule R1)
    qed
    have R0: "\<not> Resolved S T p" using ts False by (simp add: Resolved_def)
    have RH: "ResolvedHandles ?S1 T m = ResolvedHandles S T m"
      unfolding ResolvedHandles_def
      by (rule arg_cong[where f="map fst"], rule filter_cong) (use Rm in auto)
    have a: "UnresolvedSets S' = (\<lambda>q. if q \<in> snd ` set (hp # m) then map_option (removeAll T) (UnresolvedSets S q)
                                   else UnresolvedSets S q)"
      using pm ts unfolding IHa by (auto simp: hp fun_eq_iff)
    have b: "Pending (PropertyToUnresolved b S') =
           (\<lambda>key. if fst key = k \<and> (\<exists>p. (snd key, p) \<in> set (hp # m) \<and> Resolved S T p) then None
                   else Pending (PropertyToUnresolved b S) key)"
    proof (rule ext)
      fix key :: "FChannelObjectPair \<times> handle"
      have e: "(\<exists>q. (snd key, q) \<in> set (hp # m) \<and> Resolved S T q) = (\<exists>q. (snd key, q) \<in> set m \<and> Resolved ?S1 T q)"
        using R0 by (auto simp: hp Rm)
      have Y: "Pending (PropertyToUnresolved b ?S1) key = Pending (PropertyToUnresolved b S) key" by simp
      show "Pending (PropertyToUnresolved b S') key =
           (if fst key = k \<and> (\<exists>p. (snd key, p) \<in> set (hp # m) \<and> Resolved S T p) then None
                   else Pending (PropertyToUnresolved b S) key)"
        unfolding X Y e by (rule refl)
    qed
    have c: "PH' = PH @ FlushedHandles W S T b k (hp # m)"
      using RH R0 unfolding IHc by (simp add: FlushedHandles_def ResolvedHandles_def hp)
    have d: "\<forall>q \<in> snd ` set (hp # m). UnresolvedSets S q \<noteq> None"
      using IHd ts pm by (auto simp: hp split: if_splits)
    have e: "ObjectToUnresolved b S' = ObjectToUnresolved b S"
       "ObjectToUnresolved (\<not> b) S' = ObjectToUnresolved (\<not> b) S"
       "PropertyToUnresolved (\<not> b) S' = PropertyToUnresolved (\<not> b) S"
       "NextUnresolvedEntry S' = NextUnresolvedEntry S"
      using IHe by simp_all
    show ?thesis using a b c d e by blast
  next
    case True
    from Cons.prems(1) ts True obtain bIsArray m' where
      arr: "(if \<not> b then IsDynamicArrayHandle
                    (if ObjectHasReplicator W (fst k) (snd k)
                     then Some (ObjectRepLayout W (snd k)) else None) h
             else Inr False) = Inr bIsArray"
      and m': "map_of (PropertyToUnresolved b S) k = Some m'"
      unfolding hp by (auto split: sum.splits option.splits)
    let ?S1 = "set_PropertyToUnresolved b (RemoveHandle k h m' (PropertyToUnresolved b S))
                 (S\<lparr>UnresolvedSets := ?U\<rparr>)"
    from Cons.prems(1) ts True arr m'
    have run: "ResolveOutgoingOperations_handles W b T k m ?S1
                 (PH @ [h] @ (if bIsArray then [0, 0] else [])) = Inr (S', PH')"
      unfolding hp by (simp split: sum.splits)
    have P1: "Pending (PropertyToUnresolved b ?S1) = (Pending (PropertyToUnresolved b S))((k, h) := None)"
      by (simp add: Pending_RemoveHandle[OF m'])
    have pend1: "\<forall>(h', p') \<in> set m. Pending (PropertyToUnresolved b ?S1) (k, h') = Some p'"
    proof (clarify)
      fix h' p' assume in_m: "(h', p') \<in> set m"
      hence "h' \<noteq> h" using hm by (auto simp: image_iff)
      moreover from pendm in_m have "Pending (PropertyToUnresolved b S) (k, h') = Some p'" by blast
      ultimately show "Pending (PropertyToUnresolved b ?S1) (k, h') = Some p'" unfolding P1 by simp
    qed
    note IH = Cons.IH[OF run dh dp pend1]
    note IHa = IH[THEN conjunct1]
    note IHb = IH[THEN conjunct2, THEN conjunct1]
    note IHc = IH[THEN conjunct2, THEN conjunct2, THEN conjunct1]
    note IHd = IH[THEN conjunct2, THEN conjunct2, THEN conjunct2, THEN conjunct1]
    note IHe = IH[THEN conjunct2, THEN conjunct2, THEN conjunct2, THEN conjunct2]
    have X: "\<And>key. Pending (PropertyToUnresolved b S') key =
           (if fst key = k \<and> (\<exists>q. (snd key, q) \<in> set m \<and> Resolved ?S1 T q) then None
            else Pending (PropertyToUnresolved b ?S1) key)"
      by (subst IHb) (rule refl)
    have U1: "UnresolvedSets ?S1 = ?U" by simp
    have R1: "\<And>q. q \<noteq> p \<Longrightarrow> Resolved ?S1 T q = Resolved S T q" by (simp add: Resolved_def)
    have Rm: "\<And>h' q. (h', q) \<in> set m \<Longrightarrow> Resolved ?S1 T q = Resolved S T q"
    proof -
      fix h' q assume "(h', q) \<in> set m"
      hence "q \<noteq> p" using pm by (auto simp: image_iff)
      thus "Resolved ?S1 T q = Resolved S T q" by (rule R1)
    qed
    have R0: "Resolved S T p" using ts True by (simp add: Resolved_def)
    have RH: "ResolvedHandles ?S1 T m = ResolvedHandles S T m"
      unfolding ResolvedHandles_def
      by (rule arg_cong[where f="map fst"], rule filter_cong) (use Rm in auto)
    have a: "UnresolvedSets S' = (\<lambda>q. if q \<in> snd ` set (hp # m) then map_option (removeAll T) (UnresolvedSets S q)
                                   else UnresolvedSets S q)"
      using pm ts unfolding IHa U1 by (auto simp: hp fun_eq_iff)
    have b: "Pending (PropertyToUnresolved b S') =
           (\<lambda>key. if fst key = k \<and> (\<exists>p. (snd key, p) \<in> set (hp # m) \<and> Resolved S T p) then None
                   else Pending (PropertyToUnresolved b S) key)"
    proof (rule ext)
      fix key :: "FChannelObjectPair \<times> handle"
      have e: "(\<exists>q. (snd key, q) \<in> set (hp # m) \<and> Resolved S T q) =
            (snd key = h \<or> (\<exists>q. (snd key, q) \<in> set m \<and> Resolved ?S1 T q))"
        using R0 by (auto simp: hp Rm)
      show "Pending (PropertyToUnresolved b S') key =
           (if fst key = k \<and> (\<exists>p. (snd key, p) \<in> set (hp # m) \<and> Resolved S T p) then None
                   else Pending (PropertyToUnresolved b S) key)"
        unfolding X e P1 by (cases key) auto
    qed
    have c: "PH' = PH @ FlushedHandles W S T b k (hp # m)"
      using RH R0 ArrayFraming_step[OF arr] unfolding IHc
      by (simp add: FlushedHandles_def ResolvedHandles_def hp)
    have d: "\<forall>q \<in> snd ` set (hp # m). UnresolvedSets S q \<noteq> None"
      using IHd ts pm unfolding U1 by (auto simp: hp split: if_splits)
    have e: "ObjectToUnresolved b S' = ObjectToUnresolved b S"
       "ObjectToUnresolved (\<not> b) S' = ObjectToUnresolved (\<not> b) S"
       "PropertyToUnresolved (\<not> b) S' = PropertyToUnresolved (\<not> b) S"
       "NextUnresolvedEntry S' = NextUnresolvedEntry S"
      using IHe by simp_all
    show ?thesis using a b c d e by blast
  qed
qed

lemma removeAll_Nil_iff: "(removeAll T ts = []) = (set ts \<subseteq> {T})"
  by (induction ts) auto

lemma RFrame_refl: "RFrame T b {} {} S S"
  by (simp add: RFrame_def)

lemma RFrame_trans:
  assumes "RFrame T b A K S S1" "RFrame T b A' K' S1 S2"
  shows "RFrame T b (A \<union> A') (K \<union> K') S S2"
proof -
  have n: "NextUnresolvedEntry S \<le> NextUnresolvedEntry S1" using assms(1) by (simp add: RFrame_def)
  have "\<And>p. p < NextUnresolvedEntry S \<Longrightarrow>
         UnresolvedSets S2 p = (if p \<in> A \<union> A' then map_option (removeAll T) (UnresolvedSets S p)
                                else UnresolvedSets S p)"
  proof -
    fix p assume p: "p < NextUnresolvedEntry S"
    hence p1: "p < NextUnresolvedEntry S1" using n by simp
    have a: "UnresolvedSets S1 p = (if p \<in> A then map_option (removeAll T) (UnresolvedSets S p)
                                else UnresolvedSets S p)"
      using assms(1) p unfolding RFrame_def by blast
    have b: "UnresolvedSets S2 p = (if p \<in> A' then map_option (removeAll T) (UnresolvedSets S1 p)
                                else UnresolvedSets S1 p)"
      using assms(2) p1 unfolding RFrame_def by blast
    show "UnresolvedSets S2 p = (if p \<in> A \<union> A' then map_option (removeAll T) (UnresolvedSets S p)
                                else UnresolvedSets S p)"
      unfolding a b by (cases "UnresolvedSets S p") auto
  qed
  thus ?thesis using assms unfolding RFrame_def by auto
qed

lemma RFrame_mono: "RFrame T b A K S S' \<Longrightarrow> K \<subseteq> K' \<Longrightarrow> RFrame T b A K' S S'"
  unfolding RFrame_def by (simp add: subset_iff) blast

lemma Frame_RFrame:
  "Frame K b S S' \<Longrightarrow> map_of (ObjectToUnresolved b S') T = map_of (ObjectToUnresolved b S) T \<Longrightarrow>
   RFrame T b {} K S S'"
  unfolding Frame_def RFrame_def by simp

lemma Registered_iff:
  "((key, p) \<in> set (Registered cm)) = (\<exists>m. (fst key, m) \<in> set cm \<and> (snd key, p) \<in> set m)"
  by (cases key) (force simp: Registered_def)

lemma ArrayFraming_relevant:
  "h' \<in> set (ArrayFraming W b k h) \<Longrightarrow> b \<or> h' > 0 \<Longrightarrow> h' = h"
  by (auto simp: ArrayFraming_def split: if_splits)

lemma FlushedHandles_relevant:
  "h' \<in> set (FlushedHandles W S T b k m) \<Longrightarrow> b \<or> h' > 0 \<Longrightarrow> h' \<in> set (ResolvedHandles S T m)"
  by (auto simp: FlushedHandles_def dest: ArrayFraming_relevant)

lemma FlushedHandles_Nil: "(FlushedHandles W S T b k m = []) = (ResolvedHandles S T m = [])"
  by (auto simp: FlushedHandles_def ArrayFraming_def)

lemma ResolvedHandles_iff:
  "(h \<in> set (ResolvedHandles S T m)) = (\<exists>p. (h, p) \<in> set m \<and> Resolved S T p)"
  by (auto simp: ResolvedHandles_def image_iff)

text \<open>What the loop over the handles of one channel and object does to a state that
  satisfies the invariant\<close>

lemma handles_step:
  assumes inv: "InvX {(b, T)} S"
    and dm: "distinct (map fst m)"
    and U2: "\<forall>(h, p) \<in> set m. Pending (PropertyToUnresolved b S) (k, h) = Some p"
    and run: "ResolveOutgoingOperations_handles W b T k m S PH = Inr (S1, PH1)"
  shows "InvX {(b, T)} S1"
    and "RFrame T b (snd ` set m) ({k} \<times> set (ResolvedHandles S T m)) S S1"
    and "PH1 = PH @ FlushedHandles W S T b k m"
    and "NextUnresolvedEntry S1 = NextUnresolvedEntry S"
    and "\<And>b' key. Complete S b' key \<Longrightarrow> Complete S1 b' key"
    and "\<And>b' key. Names S1 b' key T \<Longrightarrow> Names S b' key T \<and> \<not> (b' = b \<and> key \<in> {k} \<times> fst ` set m)"
    and "\<And>h. h \<in> set (ResolvedHandles S T m) \<Longrightarrow> Pending (PropertyToUnresolved b S1) (k, h) = None"
proof -
  have dp: "distinct (map snd m)"
    unfolding distinct_map
  proof
    show "distinct m" using dm by (rule distinct_map[THEN iffD1, THEN conjunct1])
    show "inj_on snd (set m)"
    proof (rule inj_onI)
      fix x y assume x: "x \<in> set m" and y: "y \<in> set m" and e: "snd x = snd y"
      obtain h p where xx: "x = (h, p)" by (cases x)
      obtain h' p' where yy: "y = (h', p')" by (cases y)
      from U2 x xx have a: "Pending (PropertyToUnresolved b S) (k, h) = Some p" by blast
      from U2 y yy have c: "Pending (PropertyToUnresolved b S) (k, h') = Some p'" by blast
      from e xx yy have "p = p'" by simp
      with InvX_D[OF inv a, of b "(k, h')"] c have "h = h'" by simp
      with \<open>p = p'\<close> show "x = y" by (simp add: xx yy)
    qed
  qed
  note H = handles_effect[OF run dm dp U2]
  note Hstore = H[THEN conjunct1]
  note Hpend = H[THEN conjunct2, THEN conjunct1]
  note HPH = H[THEN conjunct2, THEN conjunct2, THEN conjunct1]
  note Hsome = H[THEN conjunct2, THEN conjunct2, THEN conjunct2, THEN conjunct1]
  have HO: "ObjectToUnresolved b S1 = ObjectToUnresolved b S"
    and HOn: "ObjectToUnresolved (\<not> b) S1 = ObjectToUnresolved (\<not> b) S"
    and HPn: "PropertyToUnresolved (\<not> b) S1 = PropertyToUnresolved (\<not> b) S"
    and HN: "NextUnresolvedEntry S1 = NextUnresolvedEntry S"
    using H by simp_all
  have Oall: "\<And>b'. ObjectToUnresolved b' S1 = ObjectToUnresolved b' S"
  proof -
    fix b' show "ObjectToUnresolved b' S1 = ObjectToUnresolved b' S"
      using HO HOn by (cases "b' = b") (auto dest: other_kind)
  qed
  have P1: "\<And>key. Pending (PropertyToUnresolved b S1) key =
              (if fst key = k \<and> snd key \<in> set (ResolvedHandles S T m) then None
               else Pending (PropertyToUnresolved b S) key)"
    unfolding ResolvedHandles_iff by (subst Hpend) (rule refl)
  have Pall: "\<And>b' key p. Pending (PropertyToUnresolved b' S1) key = Some p \<Longrightarrow>
                Pending (PropertyToUnresolved b' S) key = Some p"
  proof -
    fix b' key p assume a: "Pending (PropertyToUnresolved b' S1) key = Some p"
    show "Pending (PropertyToUnresolved b' S) key = Some p"
    proof (cases "b' = b")
      case True thus ?thesis using a by (auto simp: P1 split: if_splits)
    next
      case False
      hence "b' = (\<not> b)" by auto
      thus ?thesis using a HPn by simp
    qed
  qed
  have S1: "\<And>q. UnresolvedSets S1 q = (if q \<in> snd ` set m then map_option (removeAll T) (UnresolvedSets S q)
                                   else UnresolvedSets S q)"
    by (subst Hstore) (rule refl)
  have addr: "\<And>b' key p. Pending (PropertyToUnresolved b' S) key = Some p \<Longrightarrow> p \<in> snd ` set m \<Longrightarrow>
                b' = b \<and> key \<in> {k} \<times> fst ` set m"
  proof -
    fix b' key p assume a: "Pending (PropertyToUnresolved b' S) key = Some p" and "p \<in> snd ` set m"
    then obtain h where hp: "(h, p) \<in> set m" by auto
    with U2 have "Pending (PropertyToUnresolved b S) (k, h) = Some p" by blast
    from InvX_D[OF inv a this] have "b' = b" "key = (k, h)" by simp_all
    moreover have "h \<in> fst ` set m" using hp by force
    ultimately show "b' = b \<and> key \<in> {k} \<times> fst ` set m" by simp
  qed
  show i1: "InvX {(b, T)} S1"
  proof (rule InvXI)
    fix b' show "wfO (ObjectToUnresolved b' S1)" unfolding Oall by (rule InvX_wf[OF inv])
  next
    fix b' key p assume "Pending (PropertyToUnresolved b' S1) key = Some p"
    from InvX_B[OF inv Pall[OF this]]
    show "p < NextUnresolvedEntry S1 \<and> UnresolvedSets S1 p \<noteq> None"
      by (auto simp: HN S1)
  next
    fix b1 b2 key1 key2 p
    assume "Pending (PropertyToUnresolved b1 S1) key1 = Some p"
       "Pending (PropertyToUnresolved b2 S1) key2 = Some p"
    from InvX_D[OF inv Pall[OF this(1)] Pall[OF this(2)]]
    show "b1 = b2 \<and> key1 = key2" .
  next
    fix b' T' key p assume T': "(b', T') \<notin> {(b, T)}"
      and u: "Under (ObjectToUnresolved b' S1) T' key = Some p"
    from u have u0: "Under (ObjectToUnresolved b' S) T' key = Some p" unfolding Oall .
    from InvX_C[OF inv T' u0] obtain ts where
      p0: "Pending (PropertyToUnresolved b' S) key = Some p"
      and ts: "UnresolvedSets S p = Some ts" and Tts: "T' \<in> set ts" by blast
    show "Pending (PropertyToUnresolved b' S1) key = Some p \<and>
           (\<exists>ts. UnresolvedSets S1 p = Some ts \<and> T' \<in> set ts)"
    proof (cases "b' = b")
      case True
      with T' have TT: "T' \<noteq> T" by simp
      have nres: "\<not> Resolved S T p" using ts Tts TT by (auto simp: Resolved_def removeAll_Nil_iff)
      have "\<not> (fst key = k \<and> snd key \<in> set (ResolvedHandles S T m))"
      proof
        assume a: "fst key = k \<and> snd key \<in> set (ResolvedHandles S T m)"
        then obtain q where q: "(snd key, q) \<in> set m" "Resolved S T q"
          unfolding ResolvedHandles_iff by blast
        with U2 have "Pending (PropertyToUnresolved b S) (k, snd key) = Some q" by blast
        with a p0 True have "q = p" by (cases key) auto
        with q nres show False by simp
      qed
      hence "Pending (PropertyToUnresolved b' S1) key = Some p" using p0 True by (simp add: P1)
      moreover have "\<exists>ts'. UnresolvedSets S1 p = Some ts' \<and> T' \<in> set ts'"
        using ts Tts TT by (auto simp: S1)
      ultimately show ?thesis by blast
    next
      case False
      hence "b' = (\<not> b)" by auto
      hence "Pending (PropertyToUnresolved b' S1) key = Some p" using p0 HPn by simp
      moreover have "p \<notin> snd ` set m" using addr[OF p0] False by blast
      hence "UnresolvedSets S1 p = Some ts" using ts by (simp add: S1)
      ultimately show ?thesis using Tts by blast
    qed
  qed
  show "RFrame T b (snd ` set m) ({k} \<times> set (ResolvedHandles S T m)) S S1"
    unfolding RFrame_def using HO HOn HPn HN by (auto simp: S1 P1)
  show "PH1 = PH @ FlushedHandles W S T b k m" by (rule HPH)
  show "NextUnresolvedEntry S1 = NextUnresolvedEntry S" by (rule HN)
  show "\<And>b' key. Complete S b' key \<Longrightarrow> Complete S1 b' key"
  proof -
    fix b' key assume c: "Complete S b' key"
    show "Complete S1 b' key"
      unfolding Complete_def
    proof (intro allI impI)
      fix p ts1 T'
      assume a: "Pending (PropertyToUnresolved b' S1) key = Some p"
        and t: "UnresolvedSets S1 p = Some ts1" and T': "T' \<in> set ts1"
      from t T' obtain ts where "UnresolvedSets S p = Some ts" "T' \<in> set ts"
        by (auto simp: S1 split: if_splits)
      with c Pall[OF a] have "Under (ObjectToUnresolved b' S) T' key = Some p"
        unfolding Complete_def by blast
      thus "Under (ObjectToUnresolved b' S1) T' key = Some p" unfolding Oall .
    qed
  qed
  show "\<And>b' key. Names S1 b' key T \<Longrightarrow> Names S b' key T \<and> \<not> (b' = b \<and> key \<in> {k} \<times> fst ` set m)"
  proof -
    fix b' key assume "Names S1 b' key T"
    then obtain p ts1 where a: "Pending (PropertyToUnresolved b' S1) key = Some p"
      and t: "UnresolvedSets S1 p = Some ts1" and T': "T \<in> set ts1"
      unfolding Names_def by blast
    have pm: "p \<notin> snd ` set m"
    proof
      assume "p \<in> snd ` set m"
      with t have "\<exists>ts. ts1 = removeAll T ts" by (auto simp: S1)
      with T' show False by auto
    qed
    hence "UnresolvedSets S p = Some ts1" using t by (simp add: S1)
    hence n: "Names S b' key T" using Pall[OF a] T' unfolding Names_def by blast
    have "\<not> (b' = b \<and> key \<in> {k} \<times> fst ` set m)"
    proof
      assume c: "b' = b \<and> key \<in> {k} \<times> fst ` set m"
      then obtain h q where key: "key = (k, h)" and hq: "(h, q) \<in> set m" by auto
      with U2 have "Pending (PropertyToUnresolved b S) (k, h) = Some q" by blast
      with Pall[OF a] c key have "q = p" by simp
      with hq pm show False by (auto simp: image_iff)
    qed
    with n show "Names S b' key T \<and> \<not> (b' = b \<and> key \<in> {k} \<times> fst ` set m)" by blast
  qed
  show "\<And>h. h \<in> set (ResolvedHandles S T m) \<Longrightarrow> Pending (PropertyToUnresolved b S1) (k, h) = None"
    by (simp add: P1)
qed

lemma send_step:
  assumes i1: "InvX {(b, T)} S1"
    and send: "(if b then SendComponentUpdates W S1 (snd k) (fst k) None (Some PH)
                else SendComponentUpdates W S1 (snd k) (fst k) (Some (PH @ [0])) None) = Inr (S2, Sent1)"
    and rel: "\<forall>h \<in> set PH. (b \<or> h > 0) \<longrightarrow> h \<in> R"
    and hyp: "\<forall>h \<in> R. Under (ObjectToUnresolved b S1) T (k, h) \<noteq> None \<and> \<not> Names S1 b (k, h) T"
  shows "InvX {(b, T)} S2"
    and "RFrame T b {} ({k} \<times> R) S1 S2"
    and "Sent1 = [ComponentUpdates (fst k) (ChannelEntityId W (fst k)) (snd k)
                    (if b then None else Some (PH @ [0])) (if b then Some PH else None)]"
    and "\<And>b' key. Complete S1 b' key \<Longrightarrow> Complete S2 b' key"
    and "\<And>b' key. Names S2 b' key T \<Longrightarrow> Names S1 b' key T"
proof -
  obtain UMap hs where loop: "SendComponentUpdates_loop b k UMap hs S1 = Inr S2"
    and hs: "hs = (if b then PH else PH @ [0])"
    and sent: "Sent1 = [ComponentUpdates (fst k) (ChannelEntityId W (fst k)) (snd k)
                    (if b then None else Some (PH @ [0])) (if b then Some PH else None)]"
  proof (cases b)
    case True
    with send have "SendComponentUpdates_loop b k
             (snd (UpdateFactoryUnresolved W (snd k) None (Some PH))) PH S1 = Inr S2 \<and>
          Sent1 = [ComponentUpdates (fst k) (ChannelEntityId W (fst k)) (snd k) None (Some PH)]"
      by (auto simp: SendComponentUpdates_def split: sum.splits)
    thus ?thesis using that[of "snd (UpdateFactoryUnresolved W (snd k) None (Some PH))" PH] True by simp
  next
    case False
    with send have "SendComponentUpdates_loop b k
             (fst (UpdateFactoryUnresolved W (snd k) (Some (PH @ [0])) None)) (PH @ [0]) S1 = Inr S2 \<and>
          Sent1 = [ComponentUpdates (fst k) (ChannelEntityId W (fst k)) (snd k) (Some (PH @ [0])) None]"
      by (auto simp: SendComponentUpdates_def split: sum.splits)
    thus ?thesis
      using that[of "fst (UpdateFactoryUnresolved W (snd k) (Some (PH @ [0])) None)" "PH @ [0]"] False
      by simp
  qed
  have rel': "\<forall>h \<in> set hs. (b \<or> h > 0) \<longrightarrow> h \<in> R"
    using rel unfolding hs by (cases b) auto
  show "InvX {(b, T)} S2" by (rule SendLoop_InvX[OF loop i1])
  have hyp': "\<forall>h \<in> set hs. (b \<or> h > 0) \<longrightarrow>
      Under (ObjectToUnresolved b S1) T (k, h) \<noteq> None \<and> \<not> Names S1 b (k, h) T"
    using rel' hyp by blast
  note K = SendLoop_keeps_T[OF loop i1 hyp']
  have "Frame ({k} \<times> R) b S1 S2"
    by (rule Frame_mono[OF SendLoop_Frame[OF loop i1]]) (use rel' in auto)
  thus "RFrame T b {} ({k} \<times> R) S1 S2"
    by (rule Frame_RFrame) (use K in simp)
  show "Sent1 = [ComponentUpdates (fst k) (ChannelEntityId W (fst k)) (snd k)
                    (if b then None else Some (PH @ [0])) (if b then Some PH else None)]"
    by (rule sent)
  show "\<And>b' key. Complete S1 b' key \<Longrightarrow> Complete S2 b' key"
    by (rule SendLoop_Complete[OF loop i1])
  show "\<And>b' key. Names S2 b' key T \<Longrightarrow> Names S1 b' key T"
    using K by blast
qed

text \<open>One pass of the outer loop for a channel and object that are valid\<close>

lemma pair_step:
  assumes inv: "InvX {(b, T)} S"
    and dm: "distinct (map fst m)"
    and U1: "\<forall>h. Under (ObjectToUnresolved b S) T (k, h) = map_of m h"
    and U2: "\<forall>(h, p) \<in> set m. Pending (PropertyToUnresolved b S) (k, h) = Some p"
    and run: "ResolveOutgoingOperations_handles W b T k m S [] = Inr (S1, PH)"
    and send: "if length PH > 0
               then (if b then SendComponentUpdates W S1 (snd k) (fst k) None (Some PH)
                     else SendComponentUpdates W S1 (snd k) (fst k) (Some (PH @ [0])) None)
                    = Inr (S2, Sent1)
               else S2 = S1 \<and> Sent1 = []"
    and live: "PairValid W k"
  shows "InvX {(b, T)} S2"
    and "RFrame T b (snd ` set m) ({k} \<times> set (ResolvedHandles S T m)) S S2"
    and "Sent1 = FlushOf W S T b (k, m)"
    and "\<And>b' key. Complete S b' key \<Longrightarrow> Complete S2 b' key"
    and "\<And>b' key. Names S2 b' key T \<Longrightarrow> Names S b' key T \<and> \<not> (b' = b \<and> key \<in> {k} \<times> fst ` set m)"
proof -
  note H = handles_step[OF inv dm U2 run]
  have PH: "PH = FlushedHandles W S T b k m" using H(3) by simp
  let ?R = "set (ResolvedHandles S T m)"
  have m1: "map_of (ObjectToUnresolved b S1) T = map_of (ObjectToUnresolved b S) T"
    using H(2) by (simp add: RFrame_def)
  have hyp: "\<forall>h \<in> ?R. Under (ObjectToUnresolved b S1) T (k, h) \<noteq> None \<and> \<not> Names S1 b (k, h) T"
  proof
    fix h assume h: "h \<in> ?R"
    then obtain p where hp: "(h, p) \<in> set m" unfolding ResolvedHandles_iff by blast
    hence "map_of m h = Some p" using dm by simp
    hence "Under (ObjectToUnresolved b S1) T (k, h) \<noteq> None"
      unfolding Under_cong[OF m1] using U1 by simp
    moreover have "\<not> Names S1 b (k, h) T"
      using H(7)[OF h] by (simp add: Names_def)
    ultimately show "Under (ObjectToUnresolved b S1) T (k, h) \<noteq> None \<and> \<not> Names S1 b (k, h) T" ..
  qed
  have rel: "\<forall>h \<in> set PH. (b \<or> h > 0) \<longrightarrow> h \<in> ?R"
    unfolding PH using FlushedHandles_relevant by blast
  have main: "InvX {(b, T)} S2 \<and> RFrame T b (snd ` set m) ({k} \<times> set (ResolvedHandles S T m)) S S2 \<and>
      Sent1 = FlushOf W S T b (k, m) \<and>
      (\<forall>b' key. Complete S1 b' key \<longrightarrow> Complete S2 b' key) \<and>
      (\<forall>b' key. Names S2 b' key T \<longrightarrow> Names S1 b' key T)"
  proof (cases "length PH > 0")
    case False
    with send have e: "S2 = S1" "Sent1 = []" by simp_all
    from False have "ResolvedHandles S T m = []" using PH FlushedHandles_Nil by auto
    thus ?thesis using H(1,2) e by (simp add: FlushOf_def)
  next
    case True
    with send have s: "(if b then SendComponentUpdates W S1 (snd k) (fst k) None (Some PH)
                   else SendComponentUpdates W S1 (snd k) (fst k) (Some (PH @ [0])) None)
                  = Inr (S2, Sent1)" by simp
    note Z = send_step[OF H(1) s rel hyp]
    from RFrame_trans[OF H(2) Z(2)]
    have f: "RFrame T b (snd ` set m) ({k} \<times> set (ResolvedHandles S T m)) S S2" by simp
    from True have "ResolvedHandles S T m \<noteq> []" using PH FlushedHandles_Nil by auto
    hence snt: "Sent1 = FlushOf W S T b (k, m)"
      using Z(3) live by (simp add: FlushOf_def PairValid_def PH)
    show ?thesis using Z(1) f snt Z(4) Z(5) by blast
  qed
  show "InvX {(b, T)} S2" using main by blast
  show "RFrame T b (snd ` set m) ({k} \<times> set (ResolvedHandles S T m)) S S2" using main by blast
  show "Sent1 = FlushOf W S T b (k, m)" using main by blast
  show "\<And>b' key. Complete S b' key \<Longrightarrow> Complete S2 b' key"
    using main H(5) by blast
  show "\<And>b' key. Names S2 b' key T \<Longrightarrow> Names S b' key T \<and> \<not> (b' = b \<and> key \<in> {k} \<times> fst ` set m)"
  proof -
    fix b' key assume "Names S2 b' key T"
    with main have "Names S1 b' key T" by blast
    from H(6)[OF this] show "Names S b' key T \<and> \<not> (b' = b \<and> key \<in> {k} \<times> fst ` set m)" .
  qed
qed

lemma LiveEntries_Nil: "LiveEntries W [] = []"
  by (simp add: LiveEntries_def Registered_def)

lemma LiveEntries_Cons:
  "LiveEntries W ((k, m) # rest) =
     (if PairValid W k then map (\<lambda>(h, p). ((k, h), p)) m else []) @ LiveEntries W rest"
  by (simp add: LiveEntries_def Registered_def)

lemma live_addrs:
  "PairValid W k \<Longrightarrow> snd ` set (LiveEntries W ((k, m) # rest)) = snd ` set m \<union> snd ` set (LiveEntries W rest)"
proof -
  have "snd ` set (map (\<lambda>(h, p). ((k, h), p)) m) = snd ` set m"
    by (induction m) auto
  moreover assume "PairValid W k"
  ultimately show ?thesis by (simp add: LiveEntries_Cons image_Un)
qed

lemma live_keys:
  "PairValid W k \<Longrightarrow> fst ` set (LiveEntries W ((k, m) # rest)) =
     {k} \<times> fst ` set m \<union> fst ` set (LiveEntries W rest)"
proof -
  have "fst ` set (map (\<lambda>(h, p). ((k, h), p)) m) = {k} \<times> fst ` set m"
    by (induction m) auto
  moreover assume "PairValid W k"
  ultimately show ?thesis by (simp add: LiveEntries_Cons image_Un)
qed

lemma live_flushed:
  "PairValid W k \<Longrightarrow>
   fst ` set (filter (\<lambda>(key, p). Resolved S T p) (LiveEntries W ((k, m) # rest))) =
     {k} \<times> set (ResolvedHandles S T m) \<union>
     fst ` set (filter (\<lambda>(key, p). Resolved S T p) (LiveEntries W rest))"
proof -
  have "fst ` set (filter (\<lambda>(key, p). Resolved S T p) (map (\<lambda>(h, p). ((k, h), p)) m)) =
        {k} \<times> set (ResolvedHandles S T m)"
    by (induction m) (auto simp: ResolvedHandles_def)
  moreover assume "PairValid W k"
  ultimately show ?thesis by (simp add: LiveEntries_Cons image_Un del: set_filter)
qed

lemma LiveEntries_iff:
  "((key, p) \<in> set (LiveEntries W cm)) =
   (\<exists>m. (fst key, m) \<in> set cm \<and> PairValid W (fst key) \<and> (snd key, p) \<in> set m)"
  unfolding LiveEntries_def Registered_iff by auto

lemma ResolvedHandles_cong:
  "(\<And>h p. (h, p) \<in> set m \<Longrightarrow> UnresolvedSets S2 p = UnresolvedSets S p) \<Longrightarrow>
   ResolvedHandles S2 T m = ResolvedHandles S T m"
  unfolding ResolvedHandles_def
  by (rule arg_cong[where f="map fst"], rule filter_cong) (auto simp: Resolved_def)

lemma FlushOf_cong:
  "(\<And>h p. (h, p) \<in> set m \<Longrightarrow> UnresolvedSets S2 p = UnresolvedSets S p) \<Longrightarrow>
   FlushOf W S2 T b (k, m) = FlushOf W S T b (k, m)"
proof -
  assume "\<And>h p. (h, p) \<in> set m \<Longrightarrow> UnresolvedSets S2 p = UnresolvedSets S p"
  hence "ResolvedHandles S2 T m = ResolvedHandles S T m" by (rule ResolvedHandles_cong)
  thus ?thesis by (simp add: FlushOf_def FlushedHandles_def)
qed

text \<open>The outer loop of ResolveOutgoingOperations\<close>

lemma Resolve_loop:
  assumes "ResolveOutgoingOperations_loop W b T rest S Sent = Inr (S', Sent')"
    and "InvX {(b, T)} S"
    and "distinct (map fst rest)"
    and "\<forall>(k, m) \<in> set rest. distinct (map fst m)"
    and "\<forall>(k, m) \<in> set rest. \<forall>h. Under (ObjectToUnresolved b S) T (k, h) = map_of m h"
    and "\<forall>(k, m) \<in> set rest. \<forall>(h, p) \<in> set m. Pending (PropertyToUnresolved b S) (k, h) = Some p"
  shows "InvX {(b, T)} S' \<and>
         RFrame T b (snd ` set (LiveEntries W rest))
           (fst ` set (filter (\<lambda>(key, p). Resolved S T p) (LiveEntries W rest))) S S' \<and>
         Sent' = Sent @ concat (map (FlushOf W S T b) rest) \<and>
         (\<forall>b' key. Complete S b' key \<longrightarrow> Complete S' b' key) \<and>
         (\<forall>b' key. Names S' b' key T \<longrightarrow>
            Names S b' key T \<and> \<not> (b' = b \<and> key \<in> fst ` set (LiveEntries W rest)))"
  using assms
proof (induction rest arbitrary: S Sent)
  case Nil
  then show ?case by (simp add: LiveEntries_Nil RFrame_refl)
next
  case (Cons km rest)
  obtain k m where km: "km = (k, m)" by (cases km)
  note inv = Cons.prems(2)
  have dk: "distinct (map fst rest)" and knotin: "k \<notin> fst ` set rest"
    using Cons.prems(3) unfolding km by auto
  have dm: "distinct (map fst m)" and dmr: "\<forall>(k, m) \<in> set rest. distinct (map fst m)"
    using Cons.prems(4) unfolding km by auto
  have U1: "\<forall>h. Under (ObjectToUnresolved b S) T (k, h) = map_of m h"
    and U1r: "\<forall>(k, m) \<in> set rest. \<forall>h. Under (ObjectToUnresolved b S) T (k, h) = map_of m h"
    using Cons.prems(5) unfolding km by auto
  have U2: "\<forall>(h, p) \<in> set m. Pending (PropertyToUnresolved b S) (k, h) = Some p"
    and U2r: "\<forall>(k, m) \<in> set rest. \<forall>(h, p) \<in> set m. Pending (PropertyToUnresolved b S) (k, h) = Some p"
    using Cons.prems(6) unfolding km by auto
  show ?case
  proof (cases "PairValid W k")
    case False
    hence "\<not> ChannelValid W (fst k) \<or> \<not> ObjectValid W (snd k)" by (simp add: PairValid_def)
    with Cons.prems(1) have run: "ResolveOutgoingOperations_loop W b T rest S Sent = Inr (S', Sent')"
      unfolding km by simp
    note IH = Cons.IH[OF run inv dk dmr U1r U2r]
    have "FlushOf W S T b (k, m) = []" using False by (auto simp: FlushOf_def PairValid_def)
    thus ?thesis using IH False unfolding km by (simp add: LiveEntries_Cons)
  next
    case True
    hence v: "\<not> (\<not> ChannelValid W (fst k) \<or> \<not> ObjectValid W (snd k))" by (simp add: PairValid_def)
    from Cons.prems(1) v obtain S1 PH where
      run: "ResolveOutgoingOperations_handles W b T k m S [] = Inr (S1, PH)"
      unfolding km by (auto split: sum.splits)
    from Cons.prems(1) v run obtain S2 Sent1 where
      send: "if length PH > 0
               then (if b then SendComponentUpdates W S1 (snd k) (fst k) None (Some PH)
                     else SendComponentUpdates W S1 (snd k) (fst k) (Some (PH @ [0])) None)
                    = Inr (S2, Sent1)
               else S2 = S1 \<and> Sent1 = []"
      and runr: "ResolveOutgoingOperations_loop W b T rest S2 (Sent @ Sent1) = Inr (S', Sent')"
      unfolding km by (auto split: sum.splits if_splits)
    note Z = pair_step[OF inv dm U1 U2 run send True]
    have f: "RFrame T b (snd ` set m) ({k} \<times> set (ResolvedHandles S T m)) S S2" by (rule Z(2))
    have mT: "map_of (ObjectToUnresolved b S2) T = map_of (ObjectToUnresolved b S) T"
      using f by (simp add: RFrame_def)
    have U1r2: "\<forall>(k, m) \<in> set rest. \<forall>h. Under (ObjectToUnresolved b S2) T (k, h) = map_of m h"
      using U1r unfolding Under_cong[OF mT] .
    have U2r2: "\<forall>(k, m) \<in> set rest. \<forall>(h, p) \<in> set m. Pending (PropertyToUnresolved b S2) (k, h) = Some p"
    proof (clarify)
      fix k' m' h p assume a: "(k', m') \<in> set rest" "(h, p) \<in> set m'"
      hence "k' \<noteq> k" using knotin by force
      hence "(k', h) \<notin> {k} \<times> set (ResolvedHandles S T m)" by simp
      hence "Pending (PropertyToUnresolved b S2) (k', h) = Pending (PropertyToUnresolved b S) (k', h)"
        using f unfolding RFrame_def by blast
      thus "Pending (PropertyToUnresolved b S2) (k', h) = Some p" using U2r a by auto
    qed
    note IH = Cons.IH[OF runr Z(1) dk dmr U1r2 U2r2]
    have store: "\<And>k' m' h p. (k', m') \<in> set rest \<Longrightarrow> (h, p) \<in> set m' \<Longrightarrow>
                   UnresolvedSets S2 p = UnresolvedSets S p"
    proof -
      fix k' m' h p assume a: "(k', m') \<in> set rest" "(h, p) \<in> set m'"
      hence ne: "k' \<noteq> k" using knotin by force
      from U2r a have pe: "Pending (PropertyToUnresolved b S) (k', h) = Some p" by auto
      have lt: "p < NextUnresolvedEntry S" using InvX_B[OF inv pe] by simp
      have "p \<notin> snd ` set m"
      proof
        assume "p \<in> snd ` set m"
        then obtain h2 where "(h2, p) \<in> set m" by auto
        with U2 have "Pending (PropertyToUnresolved b S) (k, h2) = Some p" by auto
        from InvX_D[OF inv pe this] ne show False by simp
      qed
      thus "UnresolvedSets S2 p = UnresolvedSets S p"
        using f lt unfolding RFrame_def by auto
    qed
    have res: "\<And>key p. (key, p) \<in> set (LiveEntries W rest) \<Longrightarrow> Resolved S2 T p = Resolved S T p"
      unfolding LiveEntries_iff using store by (auto simp: Resolved_def)
    have K2: "filter (\<lambda>(key, p). Resolved S2 T p) (LiveEntries W rest) =
              filter (\<lambda>(key, p). Resolved S T p) (LiveEntries W rest)"
      by (rule filter_cong) (use res in auto)
    have F2: "map (FlushOf W S2 T b) rest = map (FlushOf W S T b) rest"
    proof (rule map_cong)
      fix x assume x: "x \<in> set rest"
      obtain k' m' where xx: "x = (k', m')" by (cases x)
      show "FlushOf W S2 T b x = FlushOf W S T b x"
        unfolding xx by (rule FlushOf_cong) (use store x xx in blast)
    qed simp
    have a: "InvX {(b, T)} S'" using IH by blast
    have "RFrame T b (snd ` set (LiveEntries W rest))
           (fst ` set (filter (\<lambda>(key, p). Resolved S T p) (LiveEntries W rest))) S2 S'"
      using IH unfolding K2 by blast
    from RFrame_trans[OF f this]
    have b: "RFrame T b (snd ` set (LiveEntries W (km # rest)))
           (fst ` set (filter (\<lambda>(key, p). Resolved S T p) (LiveEntries W (km # rest)))) S S'"
      unfolding km live_addrs[OF True] live_flushed[OF True] .
    have c: "Sent' = Sent @ concat (map (FlushOf W S T b) (km # rest))"
      using IH Z(3) unfolding F2 km by simp
    have d: "\<forall>b' key. Complete S b' key \<longrightarrow> Complete S' b' key"
      using IH Z(4) by blast
    have e: "\<forall>b' key. Names S' b' key T \<longrightarrow>
            Names S b' key T \<and> \<not> (b' = b \<and> key \<in> fst ` set (LiveEntries W (km # rest)))"
    proof (intro allI impI)
      fix b' key assume "Names S' b' key T"
      with IH have n2: "Names S2 b' key T" and x: "\<not> (b' = b \<and> key \<in> fst ` set (LiveEntries W rest))"
        by blast+
      from Z(5)[OF n2] x
      show "Names S b' key T \<and> \<not> (b' = b \<and> key \<in> fst ` set (LiveEntries W (km # rest)))"
        unfolding km live_keys[OF True] by blast
    qed
    show ?thesis using a b c d e by blast
  qed
qed

lemma InvX_weaken: "InvX X S \<Longrightarrow> X \<subseteq> Y \<Longrightarrow> InvX Y S"
  unfolding InvX_def by (simp add: subset_iff) blast

lemma RegisteredUnder_facts:
  assumes inv: "InvX {} S"
  shows "distinct (map fst (RegisteredUnder S b T))"
    and "\<forall>(k, m) \<in> set (RegisteredUnder S b T). distinct (map fst m)"
    and "\<forall>(k, m) \<in> set (RegisteredUnder S b T). \<forall>h. Under (ObjectToUnresolved b S) T (k, h) = map_of m h"
    and "\<forall>(k, m) \<in> set (RegisteredUnder S b T). \<forall>(h, p) \<in> set m.
           Pending (PropertyToUnresolved b S) (k, h) = Some p"
proof -
  have w: "RegisteredUnder S b T = [] \<or> wfC (RegisteredUnder S b T)"
    using InvX_wf[OF inv, of b] by (auto simp: RegisteredUnder_def wfO_def split: option.splits)
  show d: "distinct (map fst (RegisteredUnder S b T))" using w by (auto simp: wfC_def)
  show dm: "\<forall>(k, m) \<in> set (RegisteredUnder S b T). distinct (map fst m)" using w by (auto simp: wfC_def)
  show U1: "\<forall>(k, m) \<in> set (RegisteredUnder S b T). \<forall>h. Under (ObjectToUnresolved b S) T (k, h) = map_of m h"
  proof (clarify)
    fix k m h assume km: "(k, m) \<in> set (RegisteredUnder S b T)"
    hence "map_of (RegisteredUnder S b T) k = Some m" using d by simp
    moreover from km have "map_of (ObjectToUnresolved b S) T = Some (RegisteredUnder S b T)"
      by (cases "map_of (ObjectToUnresolved b S) T") (auto simp: RegisteredUnder_def)
    ultimately show "Under (ObjectToUnresolved b S) T (k, h) = map_of m h"
      by (simp add: Under_def Pending_def)
  qed
  show "\<forall>(k, m) \<in> set (RegisteredUnder S b T). \<forall>(h, p) \<in> set m.
           Pending (PropertyToUnresolved b S) (k, h) = Some p"
  proof (clarify)
    fix k m h p assume km: "(k, m) \<in> set (RegisteredUnder S b T)" and hp: "(h, p) \<in> set m"
    from dm km have "distinct (map fst m)" by blast
    with hp have "map_of m h = Some p" by simp
    with U1 km have "Under (ObjectToUnresolved b S) T (k, h) = Some p" by auto
    from InvX_C[OF inv _ this] show "Pending (PropertyToUnresolved b S) (k, h) = Some p" by simp
  qed
qed

lemma Under_Registered:
  assumes inv: "InvX {} S"
  shows "(Under (ObjectToUnresolved b S) T key = Some p) = ((key, p) \<in> set (Registered (RegisteredUnder S b T)))"
proof (cases "map_of (ObjectToUnresolved b S) T")
  case None
  thus ?thesis by (simp add: Under_def RegisteredUnder_def Registered_def)
next
  case (Some cm)
  hence cm: "RegisteredUnder S b T = cm" by (simp add: RegisteredUnder_def)
  note F = RegisteredUnder_facts[OF inv, of b T, unfolded cm]
  obtain k h where key: "key = (k, h)" by (cases key)
  show ?thesis
    unfolding cm Registered_iff key
  proof
    assume "Under (ObjectToUnresolved b S) T (k, h) = Some p"
    hence "Pending cm (k, h) = Some p" using Some by (simp add: Under_def)
    then obtain m where "map_of cm k = Some m" "map_of m h = Some p"
      by (auto simp: Pending_def split: option.splits)
    thus "\<exists>m. (fst (k, h), m) \<in> set cm \<and> (snd (k, h), p) \<in> set m"
      by (auto dest: map_of_SomeD)
  next
    assume "\<exists>m. (fst (k, h), m) \<in> set cm \<and> (snd (k, h), p) \<in> set m"
    then obtain m where m: "(k, m) \<in> set cm" "(h, p) \<in> set m" by auto
    with F(2) have "map_of m h = Some p" by auto
    with F(3) m show "Under (ObjectToUnresolved b S) T (k, h) = Some p" by auto
  qed
qed

text \<open>ResolveOutgoingOperations\<close>

lemma Resolve_effect:
  assumes run: "ResolveOutgoingOperations W S T b = Inr (S', Sent)"
    and inv: "InvX {} S"
  shows "InvX {} S'"
    and "Sent = concat (map (FlushOf W S T b) (RegisteredUnder S b T))"
    and "\<And>b' key p. Pending (PropertyToUnresolved b' S) key = Some p \<Longrightarrow>
           \<not> (b' = b \<and> key \<in> fst ` set (filter (\<lambda>(key, p). Resolved S T p)
                                           (LiveEntries W (RegisteredUnder S b T)))) \<Longrightarrow>
           Pending (PropertyToUnresolved b' S') key = Some p \<and>
           UnresolvedSets S' p =
             (if b' = b \<and> key \<in> fst ` set (LiveEntries W (RegisteredUnder S b T))
              then map_option (removeAll T) (UnresolvedSets S p) else UnresolvedSets S p)"
    and "\<And>b' key. Complete S b' key \<Longrightarrow> \<not> (b' = b \<and> Names S' b key T) \<Longrightarrow> Complete S' b' key"
    and "\<And>b' key. Names S' b' key T \<Longrightarrow>
           Names S b' key T \<and> \<not> (b' = b \<and> key \<in> fst ` set (LiveEntries W (RegisteredUnder S b T)))"
    and "map_of (ObjectToUnresolved b S') T = None"
proof -
  let ?cm = "RegisteredUnder S b T"
  let ?A = "snd ` set (LiveEntries W ?cm)"
  let ?K = "fst ` set (filter (\<lambda>(key, p). Resolved S T p) (LiveEntries W ?cm))"
  let ?L = "fst ` set (LiveEntries W ?cm)"
  obtain S2 where loop: "ResolveOutgoingOperations_loop W b T ?cm S [] = Inr (S2, Sent)"
    and S': "S' = (case map_of (ObjectToUnresolved b S) T of None \<Rightarrow> S
                   | Some cm \<Rightarrow> set_ObjectToUnresolved b (AList.delete T (ObjectToUnresolved b S2)) S2)"
  proof (cases "map_of (ObjectToUnresolved b S) T")
    case None
    with run have "S' = S" "Sent = []" by (simp_all add: ResolveOutgoingOperations_def)
    thus ?thesis using that[of S] None by (simp add: RegisteredUnder_def)
  next
    case (Some cm)
    with run obtain S2 where "ResolveOutgoingOperations_loop W b T cm S [] = Inr (S2, Sent)"
      "S' = set_ObjectToUnresolved b (AList.delete T (ObjectToUnresolved b S2)) S2"
      by (auto simp: ResolveOutgoingOperations_def split: sum.splits)
    thus ?thesis using that[of S2] Some by (simp add: RegisteredUnder_def)
  qed
  note F = RegisteredUnder_facts[OF inv, of b T]
  have invT: "InvX {(b, T)} S" by (rule InvX_weaken[OF inv]) simp
  note L = Resolve_loop[OF loop invT F]
  have i2: "InvX {(b, T)} S2" using L by blast
  have f: "RFrame T b ?A ?K S S2" using L by blast
  have snt: "Sent = concat (map (FlushOf W S T b) ?cm)" using L by simp
  have c2: "\<And>b' key. Complete S b' key \<Longrightarrow> Complete S2 b' key" using L by blast
  have n2: "\<And>b' key. Names S2 b' key T \<Longrightarrow> Names S b' key T \<and> \<not> (b' = b \<and> key \<in> ?L)"
    using L by blast
  have P': "\<And>b'. PropertyToUnresolved b' S' = PropertyToUnresolved b' S2"
    unfolding S' using loop by (auto simp: RegisteredUnder_def split: option.splits)
  have U': "UnresolvedSets S' = UnresolvedSets S2" "NextUnresolvedEntry S' = NextUnresolvedEntry S2"
    unfolding S' using loop by (auto simp: RegisteredUnder_def split: option.splits)
  have On: "ObjectToUnresolved (\<not> b) S' = ObjectToUnresolved (\<not> b) S2"
    unfolding S' using loop by (auto simp: RegisteredUnder_def split: option.splits)
  have mT: "map_of (ObjectToUnresolved b S2) T = map_of (ObjectToUnresolved b S) T"
    using f by (simp add: RFrame_def)
  have Ob: "\<And>T'. map_of (ObjectToUnresolved b S') T' =
              (if T' = T then None else map_of (ObjectToUnresolved b S2) T')"
  proof -
    fix T'
    show "map_of (ObjectToUnresolved b S') T' = (if T' = T then None else map_of (ObjectToUnresolved b S2) T')"
    proof (cases "map_of (ObjectToUnresolved b S) T")
      case None
      hence "S' = S2" using S' loop by (simp add: RegisteredUnder_def)
      thus ?thesis using None mT by auto
    next
      case (Some cm)
      thus ?thesis unfolding S' by (simp add: delete_conv')
    qed
  qed
  have Ub: "\<And>T' key. Under (ObjectToUnresolved b S') T' key =
              (if T' = T then None else Under (ObjectToUnresolved b S2) T' key)"
    by (simp add: Under_def Ob)
  have wb: "wfO (ObjectToUnresolved b S')"
    using InvX_wf[OF i2, of b] unfolding wfO_def Ob by (auto split: if_splits)
  show "map_of (ObjectToUnresolved b S') T = None" by (simp add: Ob)
  show "Sent = concat (map (FlushOf W S T b) ?cm)" by (rule snt)
  have addrA: "\<And>b' key p. Pending (PropertyToUnresolved b' S) key = Some p \<Longrightarrow>
                 (p \<in> ?A) = (b' = b \<and> key \<in> ?L)"
  proof -
    fix b' key p assume a: "Pending (PropertyToUnresolved b' S) key = Some p"
    show "(p \<in> ?A) = (b' = b \<and> key \<in> ?L)"
    proof
      assume "p \<in> ?A"
      then obtain key2 where k2: "(key2, p) \<in> set (LiveEntries W ?cm)" by force
      then obtain m where m: "(fst key2, m) \<in> set ?cm" "(snd key2, p) \<in> set m"
        unfolding LiveEntries_iff by blast
      with F(4) have "Pending (PropertyToUnresolved b S) (fst key2, snd key2) = Some p" by blast
      from InvX_D[OF inv a this] have "b' = b" "key = key2" by simp_all
      thus "b' = b \<and> key \<in> ?L" using k2 by force
    next
      assume x: "b' = b \<and> key \<in> ?L"
      then obtain q where q: "(key, q) \<in> set (LiveEntries W ?cm)" by force
      then obtain m where m: "(fst key, m) \<in> set ?cm" "(snd key, q) \<in> set m"
        unfolding LiveEntries_iff by blast
      with F(4) have "Pending (PropertyToUnresolved b S) (fst key, snd key) = Some q" by blast
      with a x have "q = p" by simp
      with q show "p \<in> ?A" by force
    qed
  qed
  have eff: "\<And>b' key p. Pending (PropertyToUnresolved b' S) key = Some p \<Longrightarrow>
           \<not> (b' = b \<and> key \<in> ?K) \<Longrightarrow>
           Pending (PropertyToUnresolved b' S2) key = Some p \<and>
           UnresolvedSets S2 p =
             (if b' = b \<and> key \<in> ?L
              then map_option (removeAll T) (UnresolvedSets S p) else UnresolvedSets S p)"
  proof -
    fix b' key p assume a: "Pending (PropertyToUnresolved b' S) key = Some p"
      and nk: "\<not> (b' = b \<and> key \<in> ?K)"
    have lt: "p < NextUnresolvedEntry S" using InvX_B[OF inv a] by simp
    have st: "UnresolvedSets S2 p = (if p \<in> ?A then map_option (removeAll T) (UnresolvedSets S p)
                                else UnresolvedSets S p)"
      using f lt unfolding RFrame_def by blast
    have "Pending (PropertyToUnresolved b' S2) key = Pending (PropertyToUnresolved b' S) key"
    proof (cases "b' = b")
      case True
      with nk have "key \<notin> ?K" by simp
      thus ?thesis using f True unfolding RFrame_def by blast
    next
      case False
      hence "b' = (\<not> b)" by auto
      thus ?thesis using f unfolding RFrame_def by simp
    qed
    thus "Pending (PropertyToUnresolved b' S2) key = Some p \<and>
           UnresolvedSets S2 p =
             (if b' = b \<and> key \<in> ?L
              then map_option (removeAll T) (UnresolvedSets S p) else UnresolvedSets S p)"
      using a st unfolding addrA[OF a] by simp
  qed
  show "\<And>b' key p. Pending (PropertyToUnresolved b' S) key = Some p \<Longrightarrow>
           \<not> (b' = b \<and> key \<in> ?K) \<Longrightarrow>
           Pending (PropertyToUnresolved b' S') key = Some p \<and>
           UnresolvedSets S' p =
             (if b' = b \<and> key \<in> ?L
              then map_option (removeAll T) (UnresolvedSets S p) else UnresolvedSets S p)"
    unfolding P' U' by (rule eff)
  have N': "\<And>b' key T'. Names S' b' key T' = Names S2 b' key T'"
    unfolding Names_def P' U' ..
  show "\<And>b' key. Names S' b' key T \<Longrightarrow> Names S b' key T \<and> \<not> (b' = b \<and> key \<in> ?L)"
    unfolding N' by (rule n2)
  show "\<And>b' key. Complete S b' key \<Longrightarrow> \<not> (b' = b \<and> Names S' b key T) \<Longrightarrow> Complete S' b' key"
  proof -
    fix b' key assume c: "Complete S b' key" and nn: "\<not> (b' = b \<and> Names S' b key T)"
    note c2' = c2[OF c]
    show "Complete S' b' key"
    proof (cases "b' = b")
      case False
      hence "b' = (\<not> b)" by auto
      thus ?thesis using c2' unfolding Complete_def P' U' using On by simp
    next
      case True
      with nn have nT: "\<not> Names S2 b key T" unfolding N' by simp
      show ?thesis
        unfolding Complete_def True P' U' Ub
      proof (intro allI impI)
        fix p ts T'
        assume a: "Pending (PropertyToUnresolved b S2) key = Some p"
          "UnresolvedSets S2 p = Some ts" "T' \<in> set ts"
        with nT have "T' \<noteq> T" unfolding Names_def by blast
        moreover from c2' a True have "Under (ObjectToUnresolved b S2) T' key = Some p"
          unfolding Complete_def by blast
        ultimately show "(if T' = T then None else Under (ObjectToUnresolved b S2) T' key) = Some p"
          by simp
      qed
    qed
  qed
  show "InvX {} S'"
  proof (rule InvXI)
    fix b' show "wfO (ObjectToUnresolved b' S')"
    proof (cases "b' = b")
      case True thus ?thesis using wb by simp
    next
      case False
      hence "b' = (\<not> b)" by auto
      thus ?thesis using On InvX_wf[OF i2, of "\<not> b"] by simp
    qed
  next
    fix b' key p assume "Pending (PropertyToUnresolved b' S') key = Some p"
    thus "p < NextUnresolvedEntry S' \<and> UnresolvedSets S' p \<noteq> None"
      unfolding P' U' by (rule InvX_B[OF i2])
  next
    fix b1 b2 key1 key2 p
    assume "Pending (PropertyToUnresolved b1 S') key1 = Some p"
       "Pending (PropertyToUnresolved b2 S') key2 = Some p"
    thus "b1 = b2 \<and> key1 = key2" unfolding P' by (rule InvX_D[OF i2])
  next
    fix b' T' key p assume u: "Under (ObjectToUnresolved b' S') T' key = Some p"
    show "Pending (PropertyToUnresolved b' S') key = Some p \<and>
           (\<exists>ts. UnresolvedSets S' p = Some ts \<and> T' \<in> set ts)"
    proof (cases "b' = b")
      case True
      with u have "T' \<noteq> T" and u2: "Under (ObjectToUnresolved b S2) T' key = Some p"
        by (auto simp: Ub split: if_splits)
      hence "(b, T') \<notin> {(b, T)}" by simp
      from InvX_C[OF i2 this u2] show ?thesis unfolding P' U' True .
    next
      case False
      hence nb: "b' = (\<not> b)" by auto
      have "ObjectToUnresolved (\<not> b) S2 = ObjectToUnresolved (\<not> b) S"
        using f by (simp add: RFrame_def)
      with u nb On have u0: "Under (ObjectToUnresolved b' S) T' key = Some p" by simp
      from InvX_C[OF inv _ u0] obtain ts where
        p0: "Pending (PropertyToUnresolved b' S) key = Some p"
        and ts: "UnresolvedSets S p = Some ts" "T' \<in> set ts" by auto
      from eff[OF p0] False
      have "Pending (PropertyToUnresolved b' S2) key = Some p" "UnresolvedSets S2 p = UnresolvedSets S p"
        by auto
      thus ?thesis unfolding P' U' using ts by simp
    qed
  qed
qed

lemma Reachable_InvX: "Reachable v S \<Longrightarrow> InvX {} S"
proof (induction rule: Reachable.induct)
  case (Reachable_Init S)
  have Pe: "\<And>b. PropertyToUnresolved b S = []"
    using Reachable_Init by (simp add: PropertyToUnresolved_def)
  have Oe: "\<And>b. ObjectToUnresolved b S = []"
    using Reachable_Init by (simp add: ObjectToUnresolved_def)
  show ?case
    by (rule InvXI) (simp_all add: Pe Oe wfO_def Pending_Nil Under_def)
next
  case (Reachable_Queue S k h ts b S')
  from Queue_InvX[OF Reachable_Queue.hyps(2) Reachable_Queue.IH] show ?case .
next
  case (Reachable_Reset S k h b S')
  from Reset_InvX[OF Reachable_Reset.hyps(2) Reachable_Reset.IH] show ?case .
next
  case (Reachable_Resolve S W T b S' Sent)
  from Resolve_effect(1)[OF Reachable_Resolve.hyps(2) Reachable_Resolve.IH] show ?case .
qed

lemma Resolve_Complete:
  assumes run: "ResolveOutgoingOperations W S T b = Inr (S', Sent)"
    and inv: "InvX {} S"
    and c: "Complete S b' key"
    and cT: "Complete S b key"
    and live: "b' = b \<Longrightarrow> Names S b key T \<Longrightarrow> PairValid W (fst key)"
  shows "Complete S' b' key"
proof (rule Resolve_effect(4)[OF run inv c])
  show "\<not> (b' = b \<and> Names S' b key T)"
  proof
    assume a: "b' = b \<and> Names S' b key T"
    from Resolve_effect(5)[OF run inv, of b key] a
    have n: "Names S b key T" and nl: "key \<notin> fst ` set (LiveEntries W (RegisteredUnder S b T))"
      by auto
    from n obtain p ts where p: "Pending (PropertyToUnresolved b S) key = Some p"
      "UnresolvedSets S p = Some ts" "T \<in> set ts" unfolding Names_def by blast
    with cT have "Under (ObjectToUnresolved b S) T key = Some p" unfolding Complete_def by blast
    hence "(key, p) \<in> set (Registered (RegisteredUnder S b T))"
      unfolding Under_Registered[OF inv] .
    then obtain m where "(fst key, m) \<in> set (RegisteredUnder S b T)" "(snd key, p) \<in> set m"
      unfolding Registered_iff by blast
    moreover have "PairValid W (fst key)" using live a n by blast
    ultimately have "(key, p) \<in> set (LiveEntries W (RegisteredUnder S b T))"
      unfolding LiveEntries_iff by blast
    with nl show False by force
  qed
qed

lemma Reachable_Complete_all: "Reachable True S \<Longrightarrow> \<forall>b key. Complete S b key"
proof (induction rule: Reachable.induct)
  case (Reachable_Init S)
  have Pe: "\<And>b. PropertyToUnresolved b S = []"
    using Reachable_Init by (simp add: PropertyToUnresolved_def)
  show ?case by (simp add: Complete_def Pe Pending_Nil)
next
  case (Reachable_Queue S k h ts b' S')
  show ?case
    using Queue_Complete[OF Reachable_Queue.hyps(2) Reachable_InvX[OF Reachable_Queue.hyps(1)]]
      Reachable_Queue.IH by blast
next
  case (Reachable_Reset S k h b' S')
  show ?case
    using Reset_Complete[OF Reachable_Reset.hyps(2) Reachable_InvX[OF Reachable_Reset.hyps(1)]]
      Reachable_Reset.IH by blast
next
  case (Reachable_Resolve S W T b' S' Sent)
  note inv = Reachable_InvX[OF Reachable_Resolve.hyps(1)]
  note valid = Reachable_Resolve.hyps(3)[OF TrueI]
  note IH = Reachable_Resolve.IH[rule_format]
  show ?case
  proof (intro allI)
    fix b key
    have live: "Names S b' key T \<Longrightarrow> PairValid W (fst key)"
    proof -
      assume "Names S b' key T"
      then obtain p ts where p: "Pending (PropertyToUnresolved b' S) key = Some p"
        "UnresolvedSets S p = Some ts" "T \<in> set ts" unfolding Names_def by blast
      with IH[of b' key] have "Under (ObjectToUnresolved b' S) T key = Some p"
        unfolding Complete_def by blast
      hence "(key, p) \<in> set (Registered (RegisteredUnder S b' T))"
        unfolding Under_Registered[OF inv] .
      then obtain m where "(fst key, m) \<in> set (RegisteredUnder S b' T)"
        unfolding Registered_iff by blast
      with valid show "PairValid W (fst key)" by auto
    qed
    show "Complete S' b key"
      by (rule Resolve_Complete[OF Reachable_Resolve.hyps(2) inv IH IH live])
  qed
qed

lemma Reachable_Complete: "Reachable True S \<Longrightarrow> Complete S b key"
  using Reachable_Complete_all by blast

lemma FlushedHandles_member:
  "b \<or> h \<noteq> 0 \<Longrightarrow> (h \<in> set (FlushedHandles W S T b k m)) = (h \<in> set (ResolvedHandles S T m))"
proof
  assume "b \<or> h \<noteq> 0" and "h \<in> set (FlushedHandles W S T b k m)"
  thus "h \<in> set (ResolvedHandles S T m)"
    using FlushedHandles_relevant[of h W S T b k m] by (auto simp: word_gt_0)
next
  assume "h \<in> set (ResolvedHandles S T m)"
  thus "h \<in> set (FlushedHandles W S T b k m)"
    by (auto simp: FlushedHandles_def ArrayFraming_def)
qed

lemma Carries_FlushOf:
  assumes "b \<or> h \<noteq> 0"
  shows "filter (Carries b (k, h)) (FlushOf W S T b (k', m)) =
         (if k' = k \<and> PairValid W k \<and> h \<in> set (ResolvedHandles S T m)
          then FlushOf W S T b (k, m) else [])"
proof (cases "k' = k")
  case False
  hence "(fst k', snd k') \<noteq> k" by (cases k') auto
  thus ?thesis using False by (auto simp: FlushOf_def Carries_def)
next
  case True
  show ?thesis
    using FlushedHandles_member[OF assms, of W S T k m] assms
    by (cases b) (auto simp: True FlushOf_def Carries_def PairValid_def)
qed

lemma length_FlushOf:
  "PairValid W k \<Longrightarrow> h \<in> set (ResolvedHandles S T m) \<Longrightarrow> length (FlushOf W S T b (k, m)) = 1"
  by (auto simp: FlushOf_def PairValid_def)

lemma Carries_concat:
  assumes "b \<or> h \<noteq> 0" and "distinct (map fst cm)"
  shows "filter (Carries b (k, h)) (concat (map (FlushOf W S T b) cm)) =
         (case map_of cm k of None \<Rightarrow> []
          | Some m \<Rightarrow> if PairValid W k \<and> h \<in> set (ResolvedHandles S T m)
                      then FlushOf W S T b (k, m) else [])"
  using assms(2)
proof (induction cm)
  case Nil
  then show ?case by simp
next
  case (Cons km cm)
  obtain k' m' where km: "km = (k', m')" by (cases km)
  have d: "distinct (map fst cm)" and n: "k' \<notin> fst ` set cm" using Cons.prems unfolding km by auto
  show ?case
  proof (cases "k' = k")
    case True
    hence "map_of cm k = None" using n by (simp add: map_of_eq_None_iff)
    thus ?thesis using Cons.IH[OF d] True
      by (simp add: km Carries_FlushOf[OF assms(1)])
  next
    case False
    thus ?thesis using Cons.IH[OF d]
      by (simp add: km Carries_FlushOf[OF assms(1)])
  qed
qed

text \<open>One call of ResolveOutgoingOperations, seen from one pending entry\<close>

lemma entry_step:
  assumes inv: "InvX {} S"
    and pend: "Pending (PropertyToUnresolved b S) (k, h) = Some p"
    and st: "UnresolvedSets S p = Some ts"
    and comp: "Complete S b (k, h)"
    and live: "PairValid W k"
    and hz: "b \<or> h \<noteq> 0"
    and run: "ResolveOutgoingOperations W S T b = Inr (S', Sent)"
    and T: "T \<in> set ts"
  shows "InvX {} S'"
    and "removeAll T ts \<noteq> [] \<Longrightarrow>
           Pending (PropertyToUnresolved b S') (k, h) = Some p \<and>
           UnresolvedSets S' p = Some (removeAll T ts) \<and> Complete S' b (k, h) \<and>
           filter (Carries b (k, h)) Sent = []"
    and "removeAll T ts = [] \<Longrightarrow> length (filter (Carries b (k, h)) Sent) = 1"
proof -
  let ?cm = "RegisteredUnder S b T"
  note E = Resolve_effect[OF run inv]
  note F = RegisteredUnder_facts[OF inv, of b T]
  show "InvX {} S'" by (rule E(1))
  from comp pend st T have u: "Under (ObjectToUnresolved b S) T (k, h) = Some p"
    unfolding Complete_def by blast
  hence reg: "((k, h), p) \<in> set (Registered ?cm)" unfolding Under_Registered[OF inv] .
  then obtain m where m: "(k, m) \<in> set ?cm" "(h, p) \<in> set m"
    unfolding Registered_iff by auto
  have mk: "map_of ?cm k = Some m" using m(1) F(1) by simp
  have dm: "distinct (map fst m)" using F(2) m(1) by blast
  have le: "((k, h), p) \<in> set (LiveEntries W ?cm)"
    unfolding LiveEntries_iff using m live by auto
  have res: "(h \<in> set (ResolvedHandles S T m)) = (removeAll T ts = [])"
  proof -
    have uq: "\<And>q. (h, q) \<in> set m \<Longrightarrow> q = p"
    proof -
      fix q assume "(h, q) \<in> set m"
      hence "map_of m h = Some q" using dm by simp
      moreover have "map_of m h = Some p" using dm m(2) by simp
      ultimately show "q = p" by simp
    qed
    have "(\<exists>q. (h, q) \<in> set m \<and> Resolved S T q) = Resolved S T p"
    proof
      assume "\<exists>q. (h, q) \<in> set m \<and> Resolved S T q"
      then obtain q where q: "(h, q) \<in> set m" "Resolved S T q" by blast
      from uq[OF q(1)] q(2) show "Resolved S T p" by simp
    next
      assume "Resolved S T p"
      with m(2) show "\<exists>q. (h, q) \<in> set m \<and> Resolved S T q" by blast
    qed
    thus ?thesis unfolding ResolvedHandles_iff by (simp add: Resolved_def st)
  qed
  have snt: "filter (Carries b (k, h)) Sent =
             (if h \<in> set (ResolvedHandles S T m) then FlushOf W S T b (k, m) else [])"
    unfolding E(2) Carries_concat[OF hz F(1)] mk using live by simp
  show "removeAll T ts = [] \<Longrightarrow> length (filter (Carries b (k, h)) Sent) = 1"
    unfolding snt using res length_FlushOf[OF live, of h S T m b] by simp
  show "removeAll T ts \<noteq> [] \<Longrightarrow>
           Pending (PropertyToUnresolved b S') (k, h) = Some p \<and>
           UnresolvedSets S' p = Some (removeAll T ts) \<and> Complete S' b (k, h) \<and>
           filter (Carries b (k, h)) Sent = []"
  proof -
    assume nr: "removeAll T ts \<noteq> []"
    have nk: "\<not> (b = b \<and> (k, h) \<in> fst ` set (filter (\<lambda>(key, p). Resolved S T p) (LiveEntries W ?cm)))"
    proof
      assume "b = b \<and> (k, h) \<in> fst ` set (filter (\<lambda>(key, p). Resolved S T p) (LiveEntries W ?cm))"
      then obtain q where q: "((k, h), q) \<in> set (LiveEntries W ?cm)" "Resolved S T q" by force
      then obtain m' where "(k, m') \<in> set ?cm" "(h, q) \<in> set m'"
        unfolding LiveEntries_iff by auto
      with F(4) have "Pending (PropertyToUnresolved b S) (k, h) = Some q" by blast
      with pend have "q = p" by simp
      with q(2) st nr show False by (simp add: Resolved_def)
    qed
    have inL: "(k, h) \<in> fst ` set (LiveEntries W ?cm)" using le by force
    from E(3)[OF pend nk] inL st
    have a: "Pending (PropertyToUnresolved b S') (k, h) = Some p"
      "UnresolvedSets S' p = Some (removeAll T ts)" by simp_all
    have "\<not> (b = b \<and> Names S' b (k, h) T)"
      using E(5)[of b "(k, h)"] inL by blast
    from E(4)[OF comp this] have c: "Complete S' b (k, h)" .
    have "filter (Carries b (k, h)) Sent = []" unfolding snt using res nr by simp
    with a c show ?thesis by blast
  qed
qed

lemma Resolve_noop:
  assumes inv: "InvX {} S" and none: "\<forall>key. \<not> Names S b key T"
  shows "ResolveOutgoingOperations W S T b = Inr (S, [])"
proof (cases "map_of (ObjectToUnresolved b S) T")
  case None
  thus ?thesis by (simp add: ResolveOutgoingOperations_def)
next
  case (Some cm)
  hence "wfC cm" using InvX_wf[OF inv, of b] by (simp add: wfO_def)
  from wfC_Pending_ne[OF this] obtain key p where "Pending cm key = Some p" by blast
  hence "Under (ObjectToUnresolved b S) T key = Some p" using Some by (simp add: Under_def)
  from InvX_C[OF inv _ this] have "Names S b key T" unfolding Names_def by auto
  with none show ?thesis by blast
qed

lemmas sender_eval =
  QueueOutgoingUpdate_def ResetOutgoingUpdate_def ResolveOutgoingOperations_def
  SendComponentUpdates_def RemoveHandle_def IsDynamicArrayHandle_def
  PropertyToUnresolved_def ObjectToUnresolved_def set_PropertyToUnresolved_def
  set_ObjectToUnresolved_def example_sender_world_def example_layout_def

lemma example_queue_1:
  "QueueOutgoingUpdate example_sender (7, 10) 1 [5, 6, 9] False =
     Inr (example_sender\<lparr>RepPropertyToUnresolved := [((7, 10), [(1, 0)])],
       RepObjectToUnresolved :=
         [(5, [((7, 10), [(1, 0)])]), (6, [((7, 10), [(1, 0)])]), (9, [((7, 10), [(1, 0)])])],
       UnresolvedSets := [0 \<mapsto> [5, 6, 9]], NextUnresolvedEntry := 1\<rparr>)"
  by (simp add: sender_eval example_sender_def)

lemma example_queue_2:
  "QueueOutgoingUpdate (example_sender\<lparr>RepPropertyToUnresolved := [((7, 10), [(1, 0)])],
       RepObjectToUnresolved :=
         [(5, [((7, 10), [(1, 0)])]), (6, [((7, 10), [(1, 0)])]), (9, [((7, 10), [(1, 0)])])],
       UnresolvedSets := [0 \<mapsto> [5, 6, 9]], NextUnresolvedEntry := 1\<rparr>) (7, 10) 2 [9] False =
     Inr example_pending"
  by (simp add: sender_eval example_sender_def example_pending_def)

lemma example_resolve_5:
  "ResolveOutgoingOperations example_sender_world example_pending 5 False = Inr (example_after_5, [])"
  by (simp add: sender_eval example_pending_def example_after_5_def fun_eq_iff)

lemma example_resolve_6:
  "ResolveOutgoingOperations example_sender_world example_after_5 6 False = Inr (example_after_6, [])"
  by (simp add: sender_eval example_pending_def example_after_5_def example_after_6_def fun_eq_iff)

lemma example_resolve_9:
  "ResolveOutgoingOperations example_sender_world example_after_6 9 False =
     Inr (example_after_9, [ComponentUpdates 7 42 10 (Some [1, 2, 0, 0, 0]) None])"
  by (simp add: sender_eval example_pending_def example_after_6_def example_after_9_def fun_eq_iff)


lemma example_pending_reachable: "Reachable v example_pending"
proof -
  have "Reachable v example_sender"
    by (rule Reachable_Init) (simp_all add: example_sender_def)
  from Reachable_Queue[OF Reachable_Queue[OF this example_queue_1] example_queue_2]
  show ?thesis .
qed

lemma example_stale_queue:
  "QueueOutgoingUpdate example_sender (8, 10) 1 [5, 6, 9] False = Inr example_stale"
  by (simp add: sender_eval example_sender_def example_stale_def)

lemma example_stale_resolve_5:
  "ResolveOutgoingOperations example_sender_world example_stale 5 False =
     Inr (example_stale\<lparr>RepObjectToUnresolved :=
            [(6, [((8, 10), [(1, 0)])]), (9, [((8, 10), [(1, 0)])])]\<rparr>, [])"
  by (simp add: sender_eval example_stale_def)

lemma example_stale_resolve_6:
  "ResolveOutgoingOperations example_sender_world
     (example_stale\<lparr>RepObjectToUnresolved :=
            [(6, [((8, 10), [(1, 0)])]), (9, [((8, 10), [(1, 0)])])]\<rparr>) 6 False =
     Inr (example_stale\<lparr>RepObjectToUnresolved := [(9, [((8, 10), [(1, 0)])])]\<rparr>, [])"
  by (simp add: sender_eval example_stale_def)

lemma example_stale_resolve_9:
  "ResolveOutgoingOperations example_sender_world
     (example_stale\<lparr>RepObjectToUnresolved := [(9, [((8, 10), [(1, 0)])])]\<rparr>) 9 False =
     Inr (example_stale\<lparr>RepObjectToUnresolved := []\<rparr>, [])"
  by (simp add: sender_eval example_stale_def)

text \<open>
  Claim C3 as it is stated does not hold: \<^verbatim>\<open>ResolveOutgoingOperations\<close> passes
  over a channel that is no longer valid and then removes the whole entry of the resolved
  object. After \<^verbatim>\<open>QueueOutgoingUpdate\<close> for the channel 8 and
  \<^verbatim>\<open>ResolveOutgoingOperations\<close> for the object 5, the set of the pending entry
  still names 5, and the index keyed by object holds nothing under 5.
\<close>

theorem stale_channel_breaks_consistency:
  "\<exists>S. QueueOutgoingUpdate example_sender (8, 10) 1 [5, 6, 9] False = Inr example_stale \<and>
       ResolveOutgoingOperations example_sender_world example_stale 5 False = Inr (S, []) \<and>
       Pending (RepPropertyToUnresolved S) ((8, 10), 1) = Some 0 \<and>
       UnresolvedSets S 0 = Some [5, 6, 9] \<and>
       Under (RepObjectToUnresolved S) 5 ((8, 10), 1) = None"
  by (simp add: example_stale_queue example_stale_resolve_5)
     (simp add: example_stale_def Pending_def Under_def)

text \<open>
  Claim C3, amended. In every state that calls of
  \<^verbatim>\<open>QueueOutgoingUpdate\<close>, \<^verbatim>\<open>ResetOutgoingUpdate\<close> and
  \<^verbatim>\<open>ResolveOutgoingOperations\<close> reach from empty containers, where every channel and
  object registered under a resolved object was valid when the object was resolved, the
  index keyed by object holds an entry for a channel, object and handle under \<open>T\<close>
  exactly when the index keyed by property holds that entry for them and its set names
  \<open>T\<close>; for the replicated properties (\<open>b\<close> false) and for the handover properties
  (\<open>b\<close> true).
\<close>

theorem index_consistency:
  assumes "Reachable True S"
  shows "(Under (ObjectToUnresolved b S) T key = Some p) =
         (Pending (PropertyToUnresolved b S) key = Some p \<and>
          (\<exists>ts. UnresolvedSets S p = Some ts \<and> T \<in> set ts))"
proof
  assume "Under (ObjectToUnresolved b S) T key = Some p"
  from InvX_C[OF Reachable_InvX[OF assms] _ this]
  show "Pending (PropertyToUnresolved b S) key = Some p \<and>
          (\<exists>ts. UnresolvedSets S p = Some ts \<and> T \<in> set ts)" by simp
next
  assume "Pending (PropertyToUnresolved b S) key = Some p \<and>
          (\<exists>ts. UnresolvedSets S p = Some ts \<and> T \<in> set ts)"
  with Reachable_Complete[OF assms, of b key]
  show "Under (ObjectToUnresolved b S) T key = Some p" unfolding Complete_def by blast
qed

theorem index_consistency_witness:
  "Under (RepObjectToUnresolved example_pending) 9 ((7, 10), 2) = Some 1 \<and>
   Pending (RepPropertyToUnresolved example_pending) ((7, 10), 2) = Some 1 \<and>
   (\<exists>ts. UnresolvedSets example_pending 1 = Some ts \<and> 9 \<in> set ts) \<and>
   Under (RepObjectToUnresolved example_pending) 5 ((7, 10), 2) = None \<and>
   \<not> (\<exists>ts. UnresolvedSets example_pending 1 = Some ts \<and> 5 \<in> set ts)"
  using index_consistency[OF example_pending_reachable, of False 9 "((7, 10), 2)" 1]
    index_consistency[OF example_pending_reachable, of False 5 "((7, 10), 2)" 1]
  by (simp add: example_pending_def Pending_def Under_def PropertyToUnresolved_def
        ObjectToUnresolved_def)

text \<open>
  Claim C2 as it is stated does not hold for an entry of a channel that is no longer
  valid: the three calls of \<^verbatim>\<open>ResolveOutgoingOperations\<close> for the objects 5, 6 and 9
  of its set return, none sends anything, and the entry is pending as before.
\<close>

theorem stale_channel_never_flushed:
  "\<exists>S1 S2 S3.
     ResolveOutgoingOperations example_sender_world example_stale 5 False = Inr (S1, []) \<and>
     ResolveOutgoingOperations example_sender_world S1 6 False = Inr (S2, []) \<and>
     ResolveOutgoingOperations example_sender_world S2 9 False = Inr (S3, []) \<and>
     Pending (RepPropertyToUnresolved example_stale) ((8, 10), 1) = Some 0 \<and>
     UnresolvedSets example_stale 0 = Some [5, 6, 9] \<and>
     Pending (RepPropertyToUnresolved S3) ((8, 10), 1) = Some 0"
  by (simp add: example_stale_resolve_5 example_stale_resolve_6 example_stale_resolve_9)
     (simp add: example_stale_def Pending_def)

text \<open>
  Claim C2, amended. In a state reached from empty containers by
  successful calls: \<^verbatim>\<open>ResolveOutgoingOperations\<close> for an object that no pending
  entry names returns with the state as it was and sends nothing. And for a pending entry
  whose set is \<open>{T1, T2, T3}\<close>, that each of the three objects still holds in the index
  keyed by object, and whose channel and object are valid at each call: when
  \<^verbatim>\<open>ResolveOutgoingOperations\<close> is called for \<open>T1\<close>, \<open>T2\<close> and \<open>T3\<close> (the three
  objects in any order) and the calls return, no \<^verbatim>\<open>SendComponentUpdates\<close> of the
  first two calls carries the handle of the entry for its channel and object, and exactly
  one of the third call does. A handle of a replicated property is not 0, the handle that
  closes a list.
\<close>

theorem resolver_completeness:
  assumes "Reachable False S0"
  shows "((\<forall>key. \<not> Names S0 b key T) \<longrightarrow> ResolveOutgoingOperations W S0 T b = Inr (S0, [])) \<and>
         (Pending (PropertyToUnresolved b S0) (k, h) = Some p \<and> UnresolvedSets S0 p = Some ts \<and>
          set ts = {T1, T2, T3} \<and> distinct [T1, T2, T3] \<and> Complete S0 b (k, h) \<and>
          (b \<or> h \<noteq> 0) \<and> PairValid W1 k \<and> PairValid W2 k \<and> PairValid W3 k \<and>
          ResolveOutgoingOperations W1 S0 T1 b = Inr (S1, Sent1) \<and>
          ResolveOutgoingOperations W2 S1 T2 b = Inr (S2, Sent2) \<and>
          ResolveOutgoingOperations W3 S2 T3 b = Inr (S3, Sent3) \<longrightarrow>
          filter (Carries b (k, h)) Sent1 = [] \<and> filter (Carries b (k, h)) Sent2 = [] \<and>
          length (filter (Carries b (k, h)) Sent3) = 1)"
proof (rule conjI; rule impI)
  assume "\<forall>key. \<not> Names S0 b key T"
  from Resolve_noop[OF Reachable_InvX[OF assms] this]
  show "ResolveOutgoingOperations W S0 T b = Inr (S0, [])" .
next
  assume a: "Pending (PropertyToUnresolved b S0) (k, h) = Some p \<and> UnresolvedSets S0 p = Some ts \<and>
          set ts = {T1, T2, T3} \<and> distinct [T1, T2, T3] \<and> Complete S0 b (k, h) \<and>
          (b \<or> h \<noteq> 0) \<and> PairValid W1 k \<and> PairValid W2 k \<and> PairValid W3 k \<and>
          ResolveOutgoingOperations W1 S0 T1 b = Inr (S1, Sent1) \<and>
          ResolveOutgoingOperations W2 S1 T2 b = Inr (S2, Sent2) \<and>
          ResolveOutgoingOperations W3 S2 T3 b = Inr (S3, Sent3)"
  note inv0 = Reachable_InvX[OF assms]
  from a have pend: "Pending (PropertyToUnresolved b S0) (k, h) = Some p"
    and st: "UnresolvedSets S0 p = Some ts" and ts: "set ts = {T1, T2, T3}"
    and d: "T1 \<noteq> T2" "T1 \<noteq> T3" "T2 \<noteq> T3" and c0: "Complete S0 b (k, h)"
    and hz: "b \<or> h \<noteq> 0" and v: "PairValid W1 k" "PairValid W2 k" "PairValid W3 k"
    and r1: "ResolveOutgoingOperations W1 S0 T1 b = Inr (S1, Sent1)"
    and r2: "ResolveOutgoingOperations W2 S1 T2 b = Inr (S2, Sent2)"
    and r3: "ResolveOutgoingOperations W3 S2 T3 b = Inr (S3, Sent3)"
    by auto
  have t1: "T1 \<in> set ts" "removeAll T1 ts \<noteq> []"
    using ts d by (auto simp: removeAll_Nil_iff)
  note A = entry_step[OF inv0 pend st c0 v(1) hz r1 t1(1)]
  from A(2)[OF t1(2)] have pend1: "Pending (PropertyToUnresolved b S1) (k, h) = Some p"
    and st1: "UnresolvedSets S1 p = Some (removeAll T1 ts)" and c1: "Complete S1 b (k, h)"
    and s1: "filter (Carries b (k, h)) Sent1 = []" by simp_all
  have ts1: "set (removeAll T1 ts) = {T2, T3}" using ts d by auto
  have t2: "T2 \<in> set (removeAll T1 ts)" "removeAll T2 (removeAll T1 ts) \<noteq> []"
    using ts1 d by (auto simp: removeAll_Nil_iff)
  note B = entry_step[OF A(1) pend1 st1 c1 v(2) hz r2 t2(1)]
  from B(2)[OF t2(2)] have pend2: "Pending (PropertyToUnresolved b S2) (k, h) = Some p"
    and st2: "UnresolvedSets S2 p = Some (removeAll T2 (removeAll T1 ts))"
    and c2: "Complete S2 b (k, h)"
    and s2: "filter (Carries b (k, h)) Sent2 = []" by simp_all
  have ts2: "set (removeAll T2 (removeAll T1 ts)) = {T3}" using ts1 d by auto
  have t3: "T3 \<in> set (removeAll T2 (removeAll T1 ts))"
    "removeAll T3 (removeAll T2 (removeAll T1 ts)) = []"
    using ts2 by (auto simp: removeAll_Nil_iff)
  note C = entry_step[OF B(1) pend2 st2 c2 v(3) hz r3 t3(1)]
  from C(3)[OF t3(2)] s1 s2
  show "filter (Carries b (k, h)) Sent1 = [] \<and> filter (Carries b (k, h)) Sent2 = [] \<and>
          length (filter (Carries b (k, h)) Sent3) = 1" by simp
qed

text \<open>
  Claim C4. In a state reached from empty containers by successful calls, what a call of
  \<^verbatim>\<open>ResolveOutgoingOperations\<close> sends is, for every channel and object registered
  under the resolved object, valid, and with a handle whose set named no other object,
  one \<^verbatim>\<open>SendComponentUpdates\<close>. Not handover: the resolved handles are its
  \<^verbatim>\<open>RepChanges\<close>, each handle of a dynamic array followed by two zero handles, and a
  zero handle closes the list. Handover: the resolved handles are its
  \<^verbatim>\<open>HandoverChanges\<close>, with nothing added. Every channel and object is registered
  once.
\<close>

theorem resolved_handles_batched:
  assumes "Reachable False S" and "ResolveOutgoingOperations W S T b = Inr (S', Sent)"
  shows "Sent = concat (map (\<lambda>(k, m).
            if PairValid W k \<and> ResolvedHandles S T m \<noteq> [] then
              [ComponentUpdates (fst k) (ChannelEntityId W (fst k)) (snd k)
                 (if b then None
                  else Some (concat (map (\<lambda>h. h # (if IsDynamicArrayHandle
                                (if ObjectHasReplicator W (fst k) (snd k)
                                 then Some (ObjectRepLayout W (snd k)) else None) h = Inr True
                              then [0, 0] else [])) (ResolvedHandles S T m)) @ [0]))
                 (if b then Some (ResolvedHandles S T m) else None)]
            else []) (RegisteredUnder S b T)) \<and>
         distinct (map fst (RegisteredUnder S b T))"
proof -
  note inv = Reachable_InvX[OF assms(1)]
  have "FlushOf W S T b = (\<lambda>(k, m).
            if PairValid W k \<and> ResolvedHandles S T m \<noteq> [] then
              [ComponentUpdates (fst k) (ChannelEntityId W (fst k)) (snd k)
                 (if b then None
                  else Some (concat (map (\<lambda>h. h # (if IsDynamicArrayHandle
                                (if ObjectHasReplicator W (fst k) (snd k)
                                 then Some (ObjectRepLayout W (snd k)) else None) h = Inr True
                              then [0, 0] else [])) (ResolvedHandles S T m)) @ [0]))
                 (if b then Some (ResolvedHandles S T m) else None)]
            else [])"
  proof (cases b)
    case True
    have af: "\<And>k. ArrayFraming W True k = (\<lambda>h. [h])" by (simp add: ArrayFraming_def fun_eq_iff)
    have cc: "\<And>xs :: handle list. concat (map (\<lambda>h. [h]) xs) = xs" by (induct_tac xs) auto
    show ?thesis using True
      by (rule_tac ext) (auto simp: FlushOf_def FlushedHandles_def PairValid_def af cc)
  next
    case False
    have "\<And>k. ArrayFraming W False k = (\<lambda>h. h # (if IsDynamicArrayHandle
                                (if ObjectHasReplicator W (fst k) (snd k)
                                 then Some (ObjectRepLayout W (snd k)) else None) h = Inr True
                              then [0, 0] else []))"
      by (simp add: ArrayFraming_def fun_eq_iff)
    thus ?thesis using False
      by (rule_tac ext) (auto simp: FlushOf_def FlushedHandles_def PairValid_def)
  qed
  thus ?thesis
    using Resolve_effect(2)[OF assms(2) inv] RegisteredUnder_facts(1)[OF inv, of b T] by simp
qed

lemma example_after_6_reachable: "Reachable False example_after_6"
proof -
  have "Reachable False example_after_5"
    by (rule Reachable_Resolve[OF example_pending_reachable example_resolve_5]) simp
  thus ?thesis
    by (rule Reachable_Resolve[OF _ example_resolve_6]) simp
qed

lemma example_handover_queue:
  "QueueOutgoingUpdate example_sender (7, 10) 3 [9] True = Inr example_handover_pending"
  by (simp add: sender_eval example_sender_def example_handover_pending_def)

lemma example_handover_resolve_9:
  "ResolveOutgoingOperations example_sender_world example_handover_pending 9 True =
     Inr (example_handover_pending\<lparr>HandoverPropertyToUnresolved := [],
            HandoverObjectToUnresolved := [], UnresolvedSets := [0 \<mapsto> []]\<rparr>,
          [ComponentUpdates 7 42 10 None (Some [3])])"
  by (simp add: sender_eval example_handover_pending_def fun_eq_iff)

lemma example_handover_reachable: "Reachable False example_handover_pending"
proof -
  have "Reachable False example_sender"
    by (rule Reachable_Init) (simp_all add: example_sender_def)
  from Reachable_Queue[OF this example_handover_queue] show ?thesis .
qed

theorem resolver_completeness_witness:
  "ResolveOutgoingOperations example_sender_world example_pending 4 False = Inr (example_pending, []) \<and>
   ResolveOutgoingOperations example_sender_world example_pending 5 False = Inr (example_after_5, []) \<and>
   ResolveOutgoingOperations example_sender_world example_after_5 6 False = Inr (example_after_6, []) \<and>
   ResolveOutgoingOperations example_sender_world example_after_6 9 False =
     Inr (example_after_9, [ComponentUpdates 7 42 10 (Some [1, 2, 0, 0, 0]) None]) \<and>
   length (filter (Carries False ((7, 10), 1))
             [ComponentUpdates 7 42 10 (Some [1, 2, 0, 0, 0]) None]) = 1"
proof -
  have n: "\<forall>key. \<not> Names example_pending False key 4"
    by (auto simp: Names_def example_pending_def split: if_splits)
  have p: "Pending (PropertyToUnresolved False example_pending) ((7, 10), 1) = Some 0"
    "UnresolvedSets example_pending 0 = Some [5, 6, 9]"
    by (simp_all add: example_pending_def Pending_def PropertyToUnresolved_def)
  have v: "PairValid example_sender_world (7, 10)"
    by (simp add: PairValid_def example_sender_world_def)
  note c = Reachable_Complete[OF example_pending_reachable, of False "((7, 10), 1)"]
  note T = resolver_completeness[OF example_pending_reachable,
      where b = False and T = 4 and W = example_sender_world and k = "(7, 10)" and h = 1
        and p = 0 and ts = "[5, 6, 9]" and ?T1.0 = 5 and ?T2.0 = 6 and ?T3.0 = 9
        and ?W1.0 = example_sender_world and ?W2.0 = example_sender_world
        and ?W3.0 = example_sender_world and ?S1.0 = example_after_5 and ?Sent1.0 = "[]"
        and ?S2.0 = example_after_6 and ?Sent2.0 = "[]" and ?S3.0 = example_after_9
        and ?Sent3.0 = "[ComponentUpdates 7 42 10 (Some [1, 2, 0, 0, 0]) None]"]
  from T n p v c example_resolve_5 example_resolve_6 example_resolve_9
  show ?thesis by auto
qed

theorem resolved_handles_batched_witness:
  "ResolveOutgoingOperations example_sender_world example_after_6 9 False =
     Inr (example_after_9, [ComponentUpdates 7 42 10 (Some [1, 2, 0, 0, 0]) None]) \<and>
   RegisteredUnder example_after_6 False 9 = [((7, 10), [(1, 0), (2, 1)])] \<and>
   ResolvedHandles example_after_6 9 [(1, 0), (2, 1)] = [1, 2] \<and>
   ResolveOutgoingOperations example_sender_world example_handover_pending 9 True =
     Inr (example_handover_pending\<lparr>HandoverPropertyToUnresolved := [],
            HandoverObjectToUnresolved := [], UnresolvedSets := [0 \<mapsto> []]\<rparr>,
          [ComponentUpdates 7 42 10 None (Some [3])]) \<and>
   RegisteredUnder example_handover_pending True 9 = [((7, 10), [(3, 0)])] \<and>
   ResolvedHandles example_handover_pending 9 [(3, 0)] = [3]"
  using resolved_handles_batched[OF example_after_6_reachable example_resolve_9]
    resolved_handles_batched[OF example_handover_reachable example_handover_resolve_9]
    example_resolve_9 example_handover_resolve_9
  by (simp add: RegisteredUnder_def ResolvedHandles_def Resolved_def ObjectToUnresolved_def
        example_after_6_def example_pending_def example_handover_pending_def)

end
